theory Spec2Isabelle
  imports Complex_Main "HOL-Library.AList"
begin

section \<open>Strings\<close>

text \<open>
  \<^verbatim>\<open>String.prototype.trim\<close> removes the white space and line terminators of ECMAScript
  from both ends. In UTF-8 these are the byte sequences below, and none of them can end
  or begin inside another character.
\<close>

definition whiteSpace :: "string list" where
  "whiteSpace =
     [[CHR 0x09], [CHR 0x0A], [CHR 0x0B], [CHR 0x0C], [CHR 0x0D], [CHR 0x20],
      [CHR 0xC2, CHR 0xA0], [CHR 0xE1, CHR 0x9A, CHR 0x80],
      [CHR 0xE2, CHR 0x80, CHR 0x80], [CHR 0xE2, CHR 0x80, CHR 0x81],
      [CHR 0xE2, CHR 0x80, CHR 0x82], [CHR 0xE2, CHR 0x80, CHR 0x83],
      [CHR 0xE2, CHR 0x80, CHR 0x84], [CHR 0xE2, CHR 0x80, CHR 0x85],
      [CHR 0xE2, CHR 0x80, CHR 0x86], [CHR 0xE2, CHR 0x80, CHR 0x87],
      [CHR 0xE2, CHR 0x80, CHR 0x88], [CHR 0xE2, CHR 0x80, CHR 0x89],
      [CHR 0xE2, CHR 0x80, CHR 0x8A], [CHR 0xE2, CHR 0x80, CHR 0xA8],
      [CHR 0xE2, CHR 0x80, CHR 0xA9], [CHR 0xE2, CHR 0x80, CHR 0xAF],
      [CHR 0xE2, CHR 0x81, CHR 0x9F], [CHR 0xE3, CHR 0x80, CHR 0x80],
      [CHR 0xEF, CHR 0xBB, CHR 0xBF]]"

definition startsWith :: "string \<Rightarrow> string \<Rightarrow> bool" where
  "startsWith s w = (take (length w) s = w)"

function stripLeading :: "string list \<Rightarrow> string \<Rightarrow> string" where
  "stripLeading ws s =
     (case find (\<lambda>w. w \<noteq> [] \<and> startsWith s w) ws of
        Some w \<Rightarrow> stripLeading ws (drop (length w) s)
      | None \<Rightarrow> s)"
  by pat_completeness auto
termination
proof (relation "measure (\<lambda>(ws, s). length s)", goal_cases)
  case 1
  show ?case by simp
next
  case (2 ws s w)
  then have "w \<noteq> [] \<and> startsWith s w" by (auto simp: find_Some_iff)
  then have "s \<noteq> []" by (auto simp: startsWith_def)
  with \<open>w \<noteq> [] \<and> startsWith s w\<close> show ?case by simp
qed

definition trim :: "string \<Rightarrow> string" where
  "trim s = rev (stripLeading (map rev whiteSpace) (rev (stripLeading whiteSpace s)))"


section \<open>Values\<close>

text \<open>
  The trees handled by the tool are what \<^verbatim>\<open>JSON.parse\<close> returns. The path functions read
  properties with \<^verbatim>\<open>cur[key]\<close>, which also finds what an object inherits, so the values
  are these and what such a read can return: \<^verbatim>\<open>undefined\<close>, a built-in function, and
  the prototype objects \<^verbatim>\<open>Object.prototype\<close>, \<^verbatim>\<open>Array.prototype\<close>, \<^verbatim>\<open>String.prototype\<close>,
  \<^verbatim>\<open>Number.prototype\<close> and \<^verbatim>\<open>Boolean.prototype\<close>.

  An object \<open>JObj\<close> has the prototype \<^verbatim>\<open>Object.prototype\<close>. It is the list of its own
  properties in the order in which they were added, every key once; JavaScript enumerates
  the keys that are array indices first, in ascending order (\<open>entries\<close> below). An array
  \<open>JArr\<close> has the prototype \<^verbatim>\<open>Array.prototype\<close>. It is the list of its elements, and the
  list of its own properties that are neither an element nor \<^verbatim>\<open>length\<close>. A hole of an
  array is the element \<^verbatim>\<open>undefined\<close>: the tool reads an array by index and through
  \<^verbatim>\<open>map\<close> and \<^verbatim>\<open>JSON.stringify\<close> only, which give the same for both. Numbers are real
  numbers. Strings are byte strings (UTF-8); the code looks only at \<^verbatim>\<open>.\<close>, \<^verbatim>\<open>{\<close>, \<^verbatim>\<open>}\<close> and
  white space in them, and of a character that a path function reads from a string only
  that it is no object or array matters.

  A value is a tree. JavaScript shares an array that is stored in two places; the model
  copies it.
\<close>

datatype builtin =
    ObjectPrototype
  | ArrayPrototype
  | StringPrototype
  | NumberPrototype
  | BooleanPrototype

datatype json =
    JUndefined
  | JNull
  | JBool bool
  | JNum real
  | JStr string
  | JArr "json list" "(string \<times> json) list"
  | JObj "(string \<times> json) list"
  | JFunction builtin string
  | JBuiltin builtin

fun typeof :: "json \<Rightarrow> string" where
  "typeof JUndefined = ''undefined''"
| "typeof JNull = ''object''"
| "typeof (JBool b) = ''boolean''"
| "typeof (JNum n) = ''number''"
| "typeof (JStr s) = ''string''"
| "typeof (JArr xs ps) = ''object''"
| "typeof (JObj kvs) = ''object''"
| "typeof (JFunction b name) = ''function''"
| "typeof (JBuiltin b) = ''object''"

text \<open>\<^verbatim>\<open>!v\<close>: the values JavaScript converts to false.\<close>

fun falsy :: "json \<Rightarrow> bool" where
  "falsy JUndefined = True"
| "falsy JNull = True"
| "falsy (JBool b) = (\<not> b)"
| "falsy (JNum n) = (n = 0)"
| "falsy (JStr s) = (s = [])"
| "falsy (JArr xs ps) = False"
| "falsy (JObj kvs) = False"
| "falsy (JFunction b name) = False"
| "falsy (JBuiltin b) = False"

text \<open>\<^verbatim>\<open>Array.isArray\<close>; \<^verbatim>\<open>Array.prototype\<close> is an array itself.\<close>

fun isArray :: "json \<Rightarrow> bool" where
  "isArray (JArr xs ps) = True"
| "isArray (JBuiltin b) = (b = ArrayPrototype)"
| "isArray v = False"

text \<open>\<^verbatim>\<open>isPlainObject\<close>: not null, of type object, with prototype \<^verbatim>\<open>Object.prototype\<close>
  or none. An array has \<^verbatim>\<open>Array.prototype\<close>. \<^verbatim>\<open>Object.prototype\<close> has no prototype, and
  the other prototype objects have \<^verbatim>\<open>Object.prototype\<close>.\<close>

fun isPlainObject :: "json \<Rightarrow> bool" where
  "isPlainObject (JObj kvs) = True"
| "isPlainObject (JBuiltin b) = True"
| "isPlainObject v = False"

text \<open>The guard \<^verbatim>\<open>!cur || typeof cur !== "object"\<close> of the three path functions.\<close>

definition notContainer :: "json \<Rightarrow> bool" where
  "notContainer cur = (falsy cur \<or> typeof cur \<noteq> ''object'')"

subsection \<open>Property names\<close>

definition isDigit :: "char \<Rightarrow> bool" where
  "isDigit c = (48 \<le> (of_char c :: nat) \<and> (of_char c :: nat) \<le> 57)"

definition digitsValue :: "string \<Rightarrow> nat" where
  "digitsValue ds = fold (\<lambda>c n. 10 * n + ((of_char c :: nat) - 48)) ds 0"

text \<open>A property name is an array index when it is the canonical decimal form of an
  integer below \<open>2^32 - 1\<close>.\<close>

definition arrayIndex :: "string \<Rightarrow> nat option" where
  "arrayIndex k =
     (if k \<noteq> [] \<and> list_all isDigit k \<and> (hd k \<noteq> CHR ''0'' \<or> k = ''0'')
         \<and> digitsValue k < 4294967295
      then Some (digitsValue k) else None)"

text \<open>The order in which \<^verbatim>\<open>Object.entries\<close>, \<^verbatim>\<open>Object.keys\<close> and \<^verbatim>\<open>JSON.stringify\<close> go
  through the own properties of an object: the array indices in ascending order, then
  the other keys in the order in which they were added.\<close>

definition ordered :: "(string \<times> 'a) list \<Rightarrow> (string \<times> 'a) list" where
  "ordered kvs =
     sort_key (\<lambda>e. the (arrayIndex (fst e))) (filter (\<lambda>e. arrayIndex (fst e) \<noteq> None) kvs)
     @ filter (\<lambda>e. arrayIndex (fst e) = None) kvs"

text \<open>\<^verbatim>\<open>Object.entries(value)\<close> of a plain object. The properties of the prototype objects
  are not enumerable.\<close>

fun entries :: "json \<Rightarrow> (string \<times> json) list" where
  "entries (JObj kvs) = ordered kvs"
| "entries v = []"

subsection \<open>The built-in prototype objects\<close>

text \<open>
  The function-valued properties of the prototype objects, as ECMAScript 2023 and its
  annex B list them. \<^verbatim>\<open>Array.prototype\<close> and \<^verbatim>\<open>String.prototype\<close> have the \<^verbatim>\<open>length\<close> 0
  besides. \<^verbatim>\<open>__proto__\<close> is an accessor of \<^verbatim>\<open>Object.prototype\<close>: read, it gives the
  prototype of the value it is read from (of the wrapper object, for a primitive).
\<close>

fun methods :: "builtin \<Rightarrow> string list" where
  "methods ObjectPrototype =
     [''constructor'', ''__defineGetter__'', ''__defineSetter__'', ''hasOwnProperty'',
      ''__lookupGetter__'', ''__lookupSetter__'', ''isPrototypeOf'', ''propertyIsEnumerable'',
      ''toString'', ''valueOf'', ''toLocaleString'']"
| "methods ArrayPrototype =
     [''constructor'', ''at'', ''concat'', ''copyWithin'', ''entries'', ''every'', ''fill'',
      ''filter'', ''find'', ''findIndex'', ''findLast'', ''findLastIndex'', ''flat'', ''flatMap'',
      ''forEach'', ''includes'', ''indexOf'', ''join'', ''keys'', ''lastIndexOf'', ''map'', ''pop'',
      ''push'', ''reduce'', ''reduceRight'', ''reverse'', ''shift'', ''slice'', ''some'', ''sort'',
      ''splice'', ''toLocaleString'', ''toReversed'', ''toSorted'', ''toSpliced'', ''toString'',
      ''unshift'', ''values'', ''with'']"
| "methods StringPrototype =
     [''constructor'', ''at'', ''charAt'', ''charCodeAt'', ''codePointAt'', ''concat'', ''endsWith'',
      ''includes'', ''indexOf'', ''isWellFormed'', ''lastIndexOf'', ''localeCompare'', ''match'',
      ''matchAll'', ''normalize'', ''padEnd'', ''padStart'', ''repeat'', ''replace'', ''replaceAll'',
      ''search'', ''slice'', ''split'', ''startsWith'', ''substring'', ''toLocaleLowerCase'',
      ''toLocaleUpperCase'', ''toLowerCase'', ''toString'', ''toUpperCase'', ''toWellFormed'',
      ''trim'', ''trimEnd'', ''trimStart'', ''valueOf'', ''substr'', ''anchor'', ''big'', ''blink'',
      ''bold'', ''fixed'', ''fontcolor'', ''fontsize'', ''italics'', ''link'', ''small'', ''strike'',
      ''sub'', ''sup'', ''trimLeft'', ''trimRight'']"
| "methods NumberPrototype =
     [''constructor'', ''toExponential'', ''toFixed'', ''toLocaleString'', ''toPrecision'',
      ''toString'', ''valueOf'']"
| "methods BooleanPrototype = [''constructor'', ''toString'', ''valueOf'']"

text \<open>The own property of a prototype object under a key.\<close>

definition ownOf :: "builtin \<Rightarrow> string \<Rightarrow> json option" where
  "ownOf b key =
     (if key \<in> set (methods b) then Some (JFunction b key)
      else if key = ''length'' \<and> (b = ArrayPrototype \<or> b = StringPrototype) then Some (JNum 0)
      else None)"

text \<open>What a key other than \<^verbatim>\<open>__proto__\<close> reads along the prototype chain that starts at
  a prototype object: every chain ends at \<^verbatim>\<open>Object.prototype\<close>.\<close>

definition inherited :: "builtin \<Rightarrow> string \<Rightarrow> json" where
  "inherited b key =
     (case ownOf b key of
        Some v \<Rightarrow> v
      | None \<Rightarrow> (case ownOf ObjectPrototype key of Some v \<Rightarrow> v | None \<Rightarrow> JUndefined))"

text \<open>The prototype object at which the lookup of a property starts that the value does
  not have itself, and the prototype of the value, as \<^verbatim>\<open>__proto__\<close> reads it.\<close>

fun chainOf :: "json \<Rightarrow> builtin" where
  "chainOf (JArr xs ps) = ArrayPrototype"
| "chainOf (JStr s) = StringPrototype"
| "chainOf (JNum n) = NumberPrototype"
| "chainOf (JBool b) = BooleanPrototype"
| "chainOf (JBuiltin b) = b"
| "chainOf v = ObjectPrototype"

fun protoOf :: "json \<Rightarrow> json" where
  "protoOf (JBuiltin b) = (if b = ObjectPrototype then JNull else JBuiltin ObjectPrototype)"
| "protoOf v = JBuiltin (chainOf v)"

subsection \<open>Property access\<close>

text \<open>
  A failure is what the statement throws: a \<^verbatim>\<open>TypeError\<close> (a property of \<^verbatim>\<open>null\<close> or
  \<^verbatim>\<open>undefined\<close>; in the strict mode of module code, an assignment to a property of a
  primitive or to a property that cannot be written, and the deletion of a property that
  cannot be deleted) or a \<^verbatim>\<open>RangeError\<close> (a \<^verbatim>\<open>length\<close> that is no integer below \<open>2^32\<close>).
  \<open>Unmodelled\<close> stands for a statement that is not followed further, whatever it does. Such
  a statement adds a property to a built-in prototype object or deletes one, which every
  object of the program inherits from, so that it is no change of the tree; or it replaces
  the prototype of an object; or it reads a property of a function; or it needs the number
  that a string with digits and other characters, an array or a built-in object converts
  to.
\<close>

datatype failure = TypeError | RangeError | Unmodelled

text \<open>The own property of a value under a key. A string has its characters and its
  length.\<close>

fun own :: "json \<Rightarrow> string \<Rightarrow> json option" where
  "own (JObj kvs) key = map_of kvs key"
| "own (JArr xs ps) key =
     (case arrayIndex key of
        Some i \<Rightarrow> if i < length xs then Some (xs ! i) else None
      | None \<Rightarrow> if key = ''length'' then Some (JNum (real (length xs))) else map_of ps key)"
| "own (JStr s) key =
     (case arrayIndex key of
        Some i \<Rightarrow> if i < length s then Some (JStr [s ! i]) else None
      | None \<Rightarrow> if key = ''length'' then Some (JNum (real (length s))) else None)"
| "own (JBuiltin b) key = ownOf b key"
| "own v key = None"

text \<open>\<^verbatim>\<open>cur[key]\<close>, read: the own property, or else what the prototype chain gives.\<close>

fun readProp :: "json \<Rightarrow> string \<Rightarrow> failure + json" where
  "readProp JUndefined key = Inl TypeError"
| "readProp JNull key = Inl TypeError"
| "readProp (JFunction b name) key = Inl Unmodelled"
| "readProp cur key =
     Inr (case own cur key of
            Some v \<Rightarrow> v
          | None \<Rightarrow> if key = ''__proto__'' then protoOf cur else inherited (chainOf cur) key)"

text \<open>
  The setter of \<^verbatim>\<open>__proto__\<close>, called on an object or an array: it does nothing when the
  value is neither an object nor \<^verbatim>\<open>null\<close>, and it makes the value the prototype
  otherwise, which changes nothing when the value is the prototype already. The
  prototype of \<^verbatim>\<open>Object.prototype\<close> cannot be changed.
\<close>

definition setProto :: "json \<Rightarrow> json \<Rightarrow> failure + json" where
  "setProto cur v =
     (if typeof v = ''object'' \<or> typeof v = ''function''
      then (if v = protoOf cur then Inr cur
            else if cur = JBuiltin ObjectPrototype then Inl TypeError
            else Inl Unmodelled)
      else Inr cur)"

text \<open>
  The length that \<^verbatim>\<open>arr.length = v\<close> sets: the number \<open>v\<close> converts to, when that is an
  integer below \<open>2^32\<close>. An object without \<^verbatim>\<open>valueOf\<close> and \<^verbatim>\<open>toString\<close> of its own converts
  through \<^verbatim>\<open>"[object Object]"\<close> to \<^verbatim>\<open>NaN\<close>; property values that are no functions are
  passed over, and with a \<^verbatim>\<open>toString\<close> of its own that is none the conversion throws. A
  string converts to 0 when it is white space, to its value when it is decimal digits
  between white space, and to \<^verbatim>\<open>NaN\<close> or an infinity when it has no digit.
\<close>

fun lengthOf :: "json \<Rightarrow> failure + nat" where
  "lengthOf JUndefined = Inl RangeError"
| "lengthOf JNull = Inr 0"
| "lengthOf (JBool b) = Inr (if b then 1 else 0)"
| "lengthOf (JNum n) =
     (if 0 \<le> n \<and> n \<le> 4294967295 \<and> n = real_of_int \<lfloor>n\<rfloor> then Inr (nat \<lfloor>n\<rfloor>) else Inl RangeError)"
| "lengthOf (JStr s) =
     (let t = trim s in
      if t = [] then Inr 0
      else if list_all isDigit t
      then (if digitsValue t \<le> 4294967295 then Inr (digitsValue t) else Inl RangeError)
      else if list_ex isDigit t then Inl Unmodelled
      else Inl RangeError)"
| "lengthOf (JObj kvs) =
     (case map_of kvs ''valueOf'' of
        Some (JFunction b name) \<Rightarrow> Inl Unmodelled
      | _ \<Rightarrow>
          (case map_of kvs ''toString'' of
             None \<Rightarrow> Inl RangeError
           | Some (JFunction b name) \<Rightarrow> Inl Unmodelled
           | Some w \<Rightarrow> Inl TypeError))"
| "lengthOf v = Inl Unmodelled"

text \<open>\<^verbatim>\<open>cur[key] = value\<close>; the result is \<open>cur\<close> after the assignment. An index past the end
  of an array leaves holes before it. On a string, a number or a boolean only the setter
  of \<^verbatim>\<open>__proto__\<close> is found, which ignores it. The \<^verbatim>\<open>length\<close> of \<^verbatim>\<open>String.prototype\<close>
  cannot be written.\<close>

fun assign :: "json \<Rightarrow> string \<Rightarrow> json \<Rightarrow> failure + json" where
  "assign (JObj kvs) key v =
     (if key = ''__proto__'' \<and> map_of kvs key = None then setProto (JObj kvs) v
      else Inr (JObj (AList.update key v kvs)))"
| "assign (JArr xs ps) key v =
     (case arrayIndex key of
        Some i \<Rightarrow>
          Inr (JArr (if i < length xs then xs[i := v]
                     else xs @ replicate (i - length xs) JUndefined @ [v]) ps)
      | None \<Rightarrow>
          if key = ''length''
          then (case lengthOf v of
                  Inl e \<Rightarrow> Inl e
                | Inr n \<Rightarrow> Inr (JArr (take n xs @ replicate (n - length xs) JUndefined) ps))
          else if key = ''__proto__'' \<and> map_of ps key = None then setProto (JArr xs ps) v
          else Inr (JArr xs (AList.update key v ps)))"
| "assign (JBuiltin b) key v =
     (if key = ''__proto__'' then setProto (JBuiltin b) v
      else if key = ''length'' \<and> b = StringPrototype then Inl TypeError
      else Inl Unmodelled)"
| "assign (JFunction b name) key v = Inl Unmodelled"
| "assign JNull key v = Inl TypeError"
| "assign JUndefined key v = Inl TypeError"
| "assign cur key v = (if key = ''__proto__'' then Inr cur else Inl TypeError)"

text \<open>\<^verbatim>\<open>delete cur[key]\<close>; the result is \<open>cur\<close> after the deletion. Only an own property is
  deleted. An element leaves a hole; \<^verbatim>\<open>length\<close> and the characters of a string cannot be
  deleted.\<close>

fun remove :: "json \<Rightarrow> string \<Rightarrow> failure + json" where
  "remove (JObj kvs) key = Inr (JObj (AList.delete key kvs))"
| "remove (JArr xs ps) key =
     (case arrayIndex key of
        Some i \<Rightarrow> Inr (JArr (if i < length xs then xs[i := JUndefined] else xs) ps)
      | None \<Rightarrow> if key = ''length'' then Inl TypeError else Inr (JArr xs (AList.delete key ps)))"
| "remove (JBuiltin b) key =
     (if key = ''length'' \<and> (b = ArrayPrototype \<or> b = StringPrototype) then Inl TypeError
      else if key \<in> set (methods b) \<or> (key = ''__proto__'' \<and> b = ObjectPrototype)
      then Inl Unmodelled
      else Inr (JBuiltin b))"
| "remove (JStr s) key =
     (if own (JStr s) key = None then Inr (JStr s) else Inl TypeError)"
| "remove (JFunction b name) key = Inl Unmodelled"
| "remove JNull key = Inl TypeError"
| "remove JUndefined key = Inl TypeError"
| "remove cur key = Inr cur"

section \<open>Paths\<close>

text \<open>\<^verbatim>\<open>dot.split(".")\<close>: at least one segment, also for the empty string.\<close>

fun split_dot :: "string \<Rightarrow> string list" where
  "split_dot [] = [[]]"
| "split_dot (c # cs) =
     (if c = CHR ''.'' then [] # split_dot cs
      else (c # hd (split_dot cs)) # tl (split_dot cs))"

text \<open>The loop of \<^verbatim>\<open>getAtPath\<close> over the segments.\<close>

fun getAtPath_loop :: "json \<Rightarrow> string list \<Rightarrow> failure + json" where
  "getAtPath_loop cur [] = Inr cur"
| "getAtPath_loop cur (part # parts) =
     (if notContainer cur then Inr JUndefined
      else (case readProp cur part of
              Inl e \<Rightarrow> Inl e
            | Inr next \<Rightarrow> getAtPath_loop next parts))"

definition getAtPath :: "json \<Rightarrow> string \<Rightarrow> failure + json" where
  "getAtPath obj dot = getAtPath_loop obj (split_dot dot)"

text \<open>
  \<^verbatim>\<open>setAtPath\<close> mutates the tree it is given. The model returns the tree after the
  mutation: the loop returns the new \<open>cur\<close>, and the caller stores it back where the
  reference to it was held. With no segment left the key is \<^verbatim>\<open>parts[-1]\<close>, that is
  \<^verbatim>\<open>undefined\<close>; \<open>split_dot\<close> never gives that.
\<close>

fun setAtPath_loop :: "json \<Rightarrow> string list \<Rightarrow> json \<Rightarrow> failure + json" where
  "setAtPath_loop cur [] v = assign cur ''undefined'' v"
| "setAtPath_loop cur [lastKey] v = assign cur lastKey v"
| "setAtPath_loop cur (key # parts) v =
     (case readProp cur key of
        Inl e \<Rightarrow> Inl e
      | Inr child \<Rightarrow>
          (case (if notContainer child then assign cur key (JObj []) else Inr cur) of
             Inl e \<Rightarrow> Inl e
           | Inr cur1 \<Rightarrow>
               (case readProp cur1 key of
                  Inl e \<Rightarrow> Inl e
                | Inr next \<Rightarrow>
                    (case setAtPath_loop next parts v of
                       Inl e \<Rightarrow> Inl e
                     | Inr next1 \<Rightarrow> assign cur1 key next1))))"

definition setAtPath :: "json \<Rightarrow> string \<Rightarrow> json \<Rightarrow> failure + json" where
  "setAtPath obj dot v = setAtPath_loop obj (split_dot dot) v"

text \<open>\<^verbatim>\<open>deleteAtPath\<close>, in the same way. A child that is no container is not mutated
  by the rest of the loop, so nothing is stored back for it.\<close>

fun deleteAtPath_loop :: "json \<Rightarrow> string list \<Rightarrow> failure + json" where
  "deleteAtPath_loop cur [] = (if notContainer cur then Inr cur else remove cur ''undefined'')"
| "deleteAtPath_loop cur [lastKey] = (if notContainer cur then Inr cur else remove cur lastKey)"
| "deleteAtPath_loop cur (key # parts) =
     (if notContainer cur then Inr cur
      else (case readProp cur key of
              Inl e \<Rightarrow> Inl e
            | Inr child \<Rightarrow>
                if notContainer child then Inr cur
                else (case deleteAtPath_loop child parts of
                        Inl e \<Rightarrow> Inl e
                      | Inr next \<Rightarrow> assign cur key next)))"

definition deleteAtPath :: "json \<Rightarrow> string \<Rightarrow> failure + json" where
  "deleteAtPath obj dot = deleteAtPath_loop obj (split_dot dot)"

section \<open>Flattening\<close>

text \<open>
  A \<^verbatim>\<open>Map\<close> keeps its keys in the order of their first insertion, and \<^verbatim>\<open>set\<close> on a
  key it has replaces the value in place: an association list with \<open>AList.update\<close>.
\<close>

type_synonym flatMap = "(string \<times> json) list"

definition has :: "flatMap \<Rightarrow> string \<Rightarrow> bool" where
  "has m k = (k \<in> set (map fst m))"

definition get :: "flatMap \<Rightarrow> string \<Rightarrow> json" where
  "get m k = (case map_of m k of Some v \<Rightarrow> v | None \<Rightarrow> JUndefined)"

definition nextPath :: "string \<Rightarrow> string \<Rightarrow> string" where
  "nextPath path k = (if path \<noteq> [] then path @ ''.'' @ k else k)"

text \<open>The stack has its top at the head: pushing the entries one after the other leaves
  the last entry on top.\<close>

definition push_entries ::
  "string \<Rightarrow> (string \<times> json) list \<Rightarrow> (json \<times> string) list \<Rightarrow> (json \<times> string) list" where
  "push_entries path kvs stack = rev (map (\<lambda>(k, v). (v, nextPath path k)) kvs) @ stack"

definition stack_weight :: "(json \<times> string) list \<Rightarrow> nat" where
  "stack_weight stack = sum_list (map (\<lambda>e. Suc (size (fst e))) stack)"

lemma children_weight:
  "sum_list (map (\<lambda>e. Suc (size (fst e))) (map (\<lambda>(k, v). (v, f k)) kvs))
     \<le> size_list (size_prod (\<lambda>_. 0) size) kvs"
  by (induction kvs) auto

lemma sum_list_insort_key:
  fixes f :: "'a \<Rightarrow> nat"
  shows "sum_list (map f (insort_key g x xs)) = f x + sum_list (map f xs)"
  by (induction xs) simp_all

lemma sum_list_sort_key:
  fixes f :: "'a \<Rightarrow> nat"
  shows "sum_list (map f (sort_key g xs)) = sum_list (map f xs)"
  by (induction xs) (simp_all add: sum_list_insort_key)

lemma sum_list_parts:
  fixes f :: "'a \<Rightarrow> nat"
  shows "sum_list (map f (filter P xs)) + sum_list (map f (filter (\<lambda>x. \<not> P x) xs))
     = sum_list (map f xs)"
  by (induction xs) simp_all

lemma sum_list_ordered:
  fixes f :: "string \<times> 'a \<Rightarrow> nat"
  shows "sum_list (map f (ordered kvs)) = sum_list (map f kvs)"
  using sum_list_parts[of f "\<lambda>e. arrayIndex (fst e) \<noteq> None" kvs]
  by (simp add: ordered_def sum_list_sort_key)

lemma push_entries_weight:
  assumes "isPlainObject val"
  shows "stack_weight (push_entries path (entries val) stack) < stack_weight ((val, path) # stack)"
proof (cases val)
  case (JObj kvs)
  have "stack_weight (push_entries path (ordered kvs) stack)
        = sum_list (map (\<lambda>e. Suc (size (fst e))) (map (\<lambda>(k, v). (v, nextPath path k)) (ordered kvs)))
          + stack_weight stack"
    by (simp add: stack_weight_def push_entries_def rev_map[symmetric] sum_list_rev del: rev_map)
  also have "\<dots> = sum_list (map (\<lambda>e. Suc (size (fst e))) (map (\<lambda>(k, v). (v, nextPath path k)) kvs))
          + stack_weight stack"
    using sum_list_ordered[of "(\<lambda>e. Suc (size (fst e))) \<circ> (\<lambda>(k, v). (v, nextPath path k))" kvs]
    by simp
  also have "\<dots> \<le> size_list (size_prod (\<lambda>_. 0) size) kvs + stack_weight stack"
    using children_weight[of "nextPath path" kvs] by simp
  also have "\<dots> < stack_weight ((JObj kvs, path) # stack)"
    by (simp add: stack_weight_def)
  finally show ?thesis using JObj by simp
next
  case (JBuiltin b)
  then show ?thesis by (simp add: stack_weight_def push_entries_def)
qed (use assms in simp_all)

function flatten_loop :: "(json \<times> string) list \<Rightarrow> flatMap \<Rightarrow> flatMap" where
  "flatten_loop [] out = out"
| "flatten_loop ((val, path) # stack) out =
     (if isPlainObject val
      then flatten_loop (push_entries path (entries val) stack) out
      else flatten_loop stack (AList.update path val out))"
  by pat_completeness auto
termination
proof (relation "measure (\<lambda>(stack, out). stack_weight stack)", goal_cases)
  case 1
  show ?case by simp
next
  case (2 val path stack out)
  then show ?case using push_entries_weight by simp
next
  case (3 val path stack out)
  then show ?case by (simp add: stack_weight_def)
qed

definition flatten_from :: "json \<Rightarrow> string \<Rightarrow> flatMap" where
  "flatten_from obj prefix = flatten_loop [(obj, prefix)] []"

definition flatten :: "json \<Rightarrow> flatMap" where
  "flatten obj = flatten_from obj []"

section \<open>Key differences\<close>

record mismatch =
  path :: string
  baseType :: string
  targetType :: string

record diff =
  missingInTarget :: "string list"
  extraInTarget :: "string list"
  typeMismatches :: "mismatch list"

definition shape :: "json \<Rightarrow> string" where
  "shape v = (if isArray v then ''array'' else typeof v)"

text \<open>The body of the first loop of \<^verbatim>\<open>diffKeys\<close>, on the two result lists it pushes to.\<close>

definition diffBase ::
  "flatMap \<Rightarrow> string \<times> json \<Rightarrow> string list \<times> mismatch list \<Rightarrow> string list \<times> mismatch list" where
  "diffBase targetFlat kv acc =
     (let k = fst kv; v = snd kv in
      if \<not> has targetFlat k then (fst acc @ [k], snd acc)
      else (let tv = get targetFlat k; t1 = shape v; t2 = shape tv in
            if t1 \<noteq> t2
            then (fst acc, snd acc @ [\<lparr>path = k, baseType = t1, targetType = t2\<rparr>])
            else acc))"

definition diffTarget :: "flatMap \<Rightarrow> string \<times> json \<Rightarrow> string list \<Rightarrow> string list" where
  "diffTarget baseFlat kv acc = (if \<not> has baseFlat (fst kv) then acc @ [fst kv] else acc)"

definition diffKeys :: "json \<Rightarrow> json \<Rightarrow> diff" where
  "diffKeys baseObj targetObj =
     (let baseFlat = flatten baseObj;
          targetFlat = flatten targetObj;
          r = fold (diffBase targetFlat) baseFlat ([], []);
          extra = fold (diffTarget baseFlat) targetFlat []
      in \<lparr>missingInTarget = fst r, extraInTarget = extra, typeMismatches = snd r\<rparr>)"

section \<open>Strings of the translation adapter\<close>

text \<open>\<^verbatim>\<open>out.includes(ph)\<close>\<close>

fun includesStr :: "string \<Rightarrow> string \<Rightarrow> bool" where
  "includesStr [] sub = (sub = [])"
| "includesStr (c # cs) sub = (startsWith (c # cs) sub \<or> includesStr cs sub)"

text \<open>\<^verbatim>\<open>xs.join(sep)\<close>\<close>

fun joinWith :: "string \<Rightarrow> string list \<Rightarrow> string" where
  "joinWith sep [] = []"
| "joinWith sep [x] = x"
| "joinWith sep (x # y # ys) = x @ sep @ joinWith sep (y # ys)"

text \<open>
  \<^verbatim>\<open>s.match(/\{[^{}]+\}/g) ?? []\<close>: the matches from left to right, each starting where
  the one before ended. At an opening brace the longest run of characters that are no
  braces follows; there is a match when the run is not empty and a closing brace ends it.
\<close>

definition notBrace :: "char \<Rightarrow> bool" where
  "notBrace c = (c \<noteq> CHR ''{'' \<and> c \<noteq> CHR ''}'')"

function matchAll :: "string \<Rightarrow> string list" where
  "matchAll [] = []"
| "matchAll (c # cs) =
     (if c = CHR ''{'' \<and> takeWhile notBrace cs \<noteq> [] \<and> dropWhile notBrace cs \<noteq> []
         \<and> hd (dropWhile notBrace cs) = CHR ''}''
      then (c # takeWhile notBrace cs @ ''}'') # matchAll (tl (dropWhile notBrace cs))
      else matchAll cs)"
  by pat_completeness auto
termination
proof (relation "measure length", goal_cases)
  case 1
  show ?case by simp
next
  case (2 c cs)
  have "length (tl (dropWhile notBrace cs)) \<le> length cs"
    using length_dropWhile_le[of notBrace cs] by simp
  then show ?case by simp
next
  case (3 c cs)
  show ?case by simp
qed

text \<open>A \<^verbatim>\<open>Set\<close> built from a list keeps the first occurrence of every element.\<close>

definition uniq :: "'a list \<Rightarrow> 'a list" where
  "uniq xs = fold (\<lambda>x acc. if x \<in> set acc then acc else acc @ [x]) xs []"

text \<open>Modelled from the spec: \<^verbatim>\<open>dedupe\<close> of the helpers is not among the sources. The
  spec has the placeholders "collapsed to a set"; the order of the first occurrences is
  kept here, as a \<^verbatim>\<open>Set\<close> does.\<close>

definition dedupe :: "string list \<Rightarrow> string list" where
  "dedupe xs = uniq xs"

definition placeholders :: "string \<Rightarrow> string list" where
  "placeholders s = dedupe (matchAll s)"

section \<open>The translation adapter\<close>

text \<open>
  The fields of \<^verbatim>\<open>OpenAITranslator\<close> that its methods change or test. The cache is the
  \<^verbatim>\<open>Map\<close> from keys to translations; a waiting \<^verbatim>\<open>resolve\<close> callback in the queue is the
  number of the call it resumes. The concurrency is an integer here.
\<close>

record translator =
  cache :: "string \<Rightarrow> string option"
  concurrency :: int
  running :: int
  queue :: "nat list"

definition newTranslator :: "(string \<Rightarrow> string option) \<Rightarrow> int \<Rightarrow> translator" where
  "newTranslator loaded c = \<lparr>cache = loaded, concurrency = max 1 c, running = 0, queue = []\<rparr>"

text \<open>The arrow of the key is U+2192.\<close>

definition key :: "string \<Rightarrow> string \<Rightarrow> string \<Rightarrow> string" where
  "key txt fromLang toLang =
     fromLang @ [CHR 0xE2, CHR 0x86, CHR 0x92] @ toLang @ ''::'' @ txt"

text \<open>\<^verbatim>\<open>acquire\<close> for call \<open>i\<close>: the flag tells whether the promise is resolved at once.\<close>

definition acquire :: "nat \<Rightarrow> translator \<Rightarrow> translator \<times> bool" where
  "acquire i t =
     (if running t < concurrency t then (t\<lparr>running := running t + 1\<rparr>, True)
      else (t\<lparr>queue := queue t @ [i]\<rparr>, False))"

text \<open>\<^verbatim>\<open>release\<close>: the call that the shifted callback resumes, if there was one.\<close>

definition release :: "translator \<Rightarrow> translator \<times> nat option" where
  "release t =
     (case queue t of
        [] \<Rightarrow> (t\<lparr>running := running t - 1\<rparr>, None)
      | nxt # rest \<Rightarrow> (t\<lparr>queue := rest\<rparr>, Some nxt))"

definition systemPrompt :: "string \<Rightarrow> string \<Rightarrow> string" where
  "systemPrompt fromLang toLang =
     joinWith '' ''
       [''You are a professional translator.'',
        ''Translate from '' @ fromLang @ '' to '' @ toLang @ ''.'',
        ''Strictly preserve placeholders like {name}, {count}, and ICU MessageFormat segments.'',
        ''Do not add explanations. Return only the translated sentence.'']"

text \<open>What the remote call comes to: it rejects, or it resolves with a response that has
  a content or none.\<close>

datatype completion = Rejected | Completed "string option"

definition lostIn :: "string \<Rightarrow> string \<Rightarrow> string list" where
  "lostIn txt out = filter (\<lambda>ph. \<not> includesStr out ph) (placeholders txt)"

definition lostWarning :: "string list \<Rightarrow> string" where
  "lostWarning lost =
     ''Placeholder(s) '' @ joinWith '', '' lost @ '' missing in translation. Using source text.''"

text \<open>The body of the \<^verbatim>\<open>try\<close> block after the response: the value returned and cached,
  and the warnings logged.\<close>

definition fromResponse :: "string \<Rightarrow> string option \<Rightarrow> string \<times> string list" where
  "fromResponse txt content =
     (let out = trim (case content of Some c \<Rightarrow> c | None \<Rightarrow> []);
          lost = lostIn txt out
      in if length lost > 0 then (txt, [lostWarning lost]) else (out, []))"

subsection \<open>Calls in progress\<close>

text \<open>
  \<^verbatim>\<open>translateString\<close> is asynchronous: a call runs until it awaits, and other calls run
  in between. A call is suspended in \<^verbatim>\<open>acquire\<close> (\<open>Queued\<close>), holds a slot with its
  continuation not yet run (\<open>Granted\<close>), waits for the remote call it has issued
  (\<open>InFlight\<close>), or is over. The argument is a string: the test of \<^verbatim>\<open>typeof text\<close> at the
  head of the method never fires.
\<close>

datatype phase = Queued | Granted | InFlight | Returned string | Threw

record activation =
  sourceText :: string
  fromLang :: string
  toLang :: string
  phase :: phase

text \<open>The translator with the calls made on it, the requests sent to the remote service
  (system and user message) and the warnings logged.\<close>

record adapter =
  tr :: translator
  calls :: "activation list"
  requests :: "(string \<times> string) list"
  warnings :: "string list"

datatype event =
    Call string string string
  | Resume nat
  | Settle nat completion

text \<open>\<^verbatim>\<open>if (cached) return cached\<close>: an empty string is not returned.\<close>

definition cachedValue :: "translator \<Rightarrow> string \<Rightarrow> string option" where
  "cachedValue t k = (case cache t k of Some c \<Rightarrow> if c \<noteq> [] then Some c else None | None \<Rightarrow> None)"

text \<open>A call, up to its first \<^verbatim>\<open>await\<close>.\<close>

definition startCall :: "string \<Rightarrow> string \<Rightarrow> string \<Rightarrow> adapter \<Rightarrow> adapter" where
  "startCall txt src dst s =
     (let i = length (calls s); k = key txt src dst in
      case cachedValue (tr s) k of
        Some cached \<Rightarrow>
          s\<lparr>calls := calls s @
               [\<lparr>sourceText = txt, fromLang = src, toLang = dst, phase = Returned cached\<rparr>]\<rparr>
      | None \<Rightarrow>
          (let r = acquire i (tr s) in
           s\<lparr>tr := fst r,
             calls := calls s @
               [\<lparr>sourceText = txt, fromLang = src, toLang = dst,
                 phase = (if snd r then Granted else Queued)\<rparr>]\<rparr>))"

text \<open>The continuation after \<^verbatim>\<open>await this.acquire()\<close>: the request is sent.\<close>

definition resume :: "nat \<Rightarrow> adapter \<Rightarrow> adapter" where
  "resume i s =
     (if i < length (calls s) \<and> phase (calls s ! i) = Granted
      then (let a = calls s ! i in
            s\<lparr>calls := (calls s)[i := a\<lparr>phase := InFlight\<rparr>],
              requests := requests s @ [(systemPrompt (fromLang a) (toLang a), sourceText a)]\<rparr>)
      else s)"

text \<open>The continuation after the remote call: the rest of the \<^verbatim>\<open>try\<close> block, or the
  exception, and the \<^verbatim>\<open>finally\<close> block in both cases.\<close>

definition settle :: "nat \<Rightarrow> completion \<Rightarrow> adapter \<Rightarrow> adapter" where
  "settle i reply s =
     (if i < length (calls s) \<and> phase (calls s ! i) = InFlight
      then (let a = calls s ! i;
                k = key (sourceText a) (fromLang a) (toLang a);
                body = (case reply of
                          Rejected \<Rightarrow> (tr s, Threw, [])
                        | Completed content \<Rightarrow>
                            (let r = fromResponse (sourceText a) content in
                             ((tr s)\<lparr>cache := (cache (tr s))(k \<mapsto> fst r)\<rparr>, Returned (fst r), snd r)));
                rel = release (fst body);
                ended = (calls s)[i := a\<lparr>phase := fst (snd body)\<rparr>]
            in s\<lparr>tr := fst rel,
                 calls := (case snd rel of
                             None \<Rightarrow> ended
                           | Some j \<Rightarrow> ended[j := (ended ! j)\<lparr>phase := Granted\<rparr>]),
                 warnings := warnings s @ snd (snd body)\<rparr>)
      else s)"

fun step :: "event \<Rightarrow> adapter \<Rightarrow> adapter" where
  "step (Call txt src dst) s = startCall txt src dst s"
| "step (Resume i) s = resume i s"
| "step (Settle i reply) s = settle i reply s"

fun run :: "adapter \<Rightarrow> event list \<Rightarrow> adapter" where
  "run s [] = s"
| "run s (e # es) = run (step e s) es"

definition start :: "(string \<Rightarrow> string option) \<Rightarrow> int \<Rightarrow> adapter" where
  "start loaded c = \<lparr>tr = newTranslator loaded c, calls = [], requests = [], warnings = []\<rparr>"

subsection \<open>An awaited call\<close>

text \<open>
  The orchestrator awaits every call before it goes on, so the call runs to its end with
  nothing in between; \<open>reply\<close> is what the remote service answers if it is asked. A call
  that finds no free slot would wait for a release that nobody is left to make.
\<close>

datatype error = RemoteError | Stalled | PathError failure | FileError

definition translateString ::
  "completion \<Rightarrow> string \<Rightarrow> string \<Rightarrow> string \<Rightarrow> adapter \<Rightarrow> (error + string) \<times> adapter" where
  "translateString reply txt src dst s =
     (let i = length (calls s); s1 = step (Call txt src dst) s in
      case phase (calls s1 ! i) of
        Returned v \<Rightarrow> (Inr v, s1)
      | Granted \<Rightarrow>
          (let s3 = step (Settle i reply) (step (Resume i) s1) in
           case phase (calls s3 ! i) of
             Returned v \<Rightarrow> (Inr v, s3)
           | _ \<Rightarrow> (Inl RemoteError, s3))
      | _ \<Rightarrow> (Inl Stalled, s1))"

section \<open>Files and console\<close>

text \<open>
  A locale directory is the list of its regular files, by name; a directory that does
  not exist lists nothing. A file holds a JSON document, or text that \<^verbatim>\<open>JSON.parse\<close>
  rejects. Failures of the file system itself (a write that is refused) are not
  modelled; removing a file that is not there is.
\<close>

datatype content = Document json | Unreadable

type_synonym directory = "(string \<times> content) list"

text \<open>A console line is its level and the pieces of its template: text, a value
  interpolated as a string, or a value through \<^verbatim>\<open>JSON.stringify\<close>. The colours and the
  bold face of \<^verbatim>\<open>style\<close> are left out.\<close>

datatype level = Log | Warn | Info | Okay

datatype fragment = Str string | Shown json | Encoded json

text \<open>
  The state the orchestrator works on: the locale directories, the translator, the
  console, and the questions put to the user so far (message and default).
\<close>

record world =
  files :: "string \<Rightarrow> directory"
  adapterState :: adapter
  console :: "(level \<times> fragment list) list"
  asked :: "(string \<times> bool) list"

text \<open>
  What the run does not decide: the order \<^verbatim>\<open>localeCompare\<close> puts strings in, the answer
  of the user to the \<open>n\<close>-th question, and what the \<open>n\<close>-th remote call comes to.
\<close>

record env =
  localeCompare :: "string \<Rightarrow> string \<Rightarrow> bool"
  answers :: "nat \<Rightarrow> bool"
  replies :: "nat \<Rightarrow> completion"

record params =
  localesRoot :: string
  base :: string
  lang :: string
  dryRun :: bool
  auto :: bool
  preferRemove :: bool
  verbose :: bool

type_synonym 'a attempt = "(error \<times> world) + 'a"

definition say :: "level \<Rightarrow> fragment list \<Rightarrow> world \<Rightarrow> world" where
  "say lv line w = w\<lparr>console := console w @ [(lv, line)]\<rparr>"

text \<open>\<^verbatim>\<open>xs.sort((a, b) => a.localeCompare(b))\<close>: a stable sort.\<close>

fun insertBy :: "('a \<Rightarrow> 'a \<Rightarrow> bool) \<Rightarrow> ('b \<Rightarrow> 'a) \<Rightarrow> 'b \<Rightarrow> 'b list \<Rightarrow> 'b list" where
  "insertBy le f x [] = [x]"
| "insertBy le f x (y # ys) = (if le (f x) (f y) then x # y # ys else y # insertBy le f x ys)"

definition sortBy :: "('a \<Rightarrow> 'a \<Rightarrow> bool) \<Rightarrow> ('b \<Rightarrow> 'a) \<Rightarrow> 'b list \<Rightarrow> 'b list" where
  "sortBy le f xs = foldr (insertBy le f) xs []"

definition endsWith :: "string \<Rightarrow> string \<Rightarrow> bool" where
  "endsWith s suffix = startsWith (rev s) (rev suffix)"

definition listJsonFiles :: "env \<Rightarrow> directory \<Rightarrow> string list" where
  "listJsonFiles E dir =
     sortBy (localeCompare E) id (filter (\<lambda>name. endsWith name ''.json'') (map fst dir))"

definition readJSONSync :: "(string \<Rightarrow> directory) \<Rightarrow> string \<Rightarrow> string \<Rightarrow> json" where
  "readJSONSync fs dir name =
     (case map_of (fs dir) name of Some (Document t) \<Rightarrow> t | _ \<Rightarrow> JObj [])"

text \<open>
  \<^verbatim>\<open>sortDeepKeys\<close>. \<^verbatim>\<open>map\<close> gives a new array of the elements, without the other
  properties of the array. For an object, \<^verbatim>\<open>out\<close> gets the keys of \<^verbatim>\<open>Object.keys\<close> in the
  order \<^verbatim>\<open>sort\<close> puts them in. \<^verbatim>\<open>out["__proto__"] = v\<close> runs the setter of the new object:
  no property is made, and an object \<open>v\<close> becomes the prototype of \<^verbatim>\<open>out\<close>, of which
  \<^verbatim>\<open>JSON.stringify\<close>, the only reader of the result, takes nothing. The result is listed
  as it is enumerated, its index keys first. Of the prototype objects, \<^verbatim>\<open>Array.prototype\<close>
  is an array without elements and the others are plain objects without keys. That
  \<^verbatim>\<open>map\<close> throws on an array with a \<^verbatim>\<open>constructor\<close> property of its own that is a
  primitive is left out.
\<close>

fun sortDeepKeys :: "(string \<Rightarrow> string \<Rightarrow> bool) \<Rightarrow> json \<Rightarrow> json" where
  "sortDeepKeys le (JArr xs ps) = JArr (map (sortDeepKeys le) xs) []"
| "sortDeepKeys le (JObj kvs) =
     JObj (ordered (sortBy le fst (filter (\<lambda>e. fst e \<noteq> ''__proto__'')
             (ordered (map (\<lambda>e. (fst e, sortDeepKeys le (snd e))) kvs)))))"
| "sortDeepKeys le (JBuiltin b) = (if b = ArrayPrototype then JArr [] [] else JObj [])"
| "sortDeepKeys le v = v"

text \<open>
  What \<^verbatim>\<open>JSON.parse\<close> reads back from \<^verbatim>\<open>JSON.stringify\<close> of a value. The own properties
  of an object are written in the order of their enumeration, without those that are
  \<^verbatim>\<open>undefined\<close> or a function; such an element of an array is written as \<^verbatim>\<open>null\<close>, and
  the properties of an array that are no elements are not written. \<^verbatim>\<open>String.prototype\<close>,
  \<^verbatim>\<open>Number.prototype\<close> and \<^verbatim>\<open>Boolean.prototype\<close> are written as the primitive they wrap.
  That \<^verbatim>\<open>JSON.stringify\<close> calls a function it finds under \<^verbatim>\<open>toJSON\<close> is left out: no
  built-in prototype object of the model has one.
\<close>

definition unwritten :: "json \<Rightarrow> bool" where
  "unwritten v = (v = JUndefined \<or> typeof v = ''function'')"

fun reparsed :: "json \<Rightarrow> json" where
  "reparsed (JObj kvs) =
     JObj (ordered (concat (map (\<lambda>e. if unwritten (snd e) then [] else [(fst e, reparsed (snd e))])
                              kvs)))"
| "reparsed (JArr xs ps) = JArr (map (\<lambda>x. if unwritten x then JNull else reparsed x) xs) []"
| "reparsed (JBuiltin ObjectPrototype) = JObj []"
| "reparsed (JBuiltin ArrayPrototype) = JArr [] []"
| "reparsed (JBuiltin StringPrototype) = JStr []"
| "reparsed (JBuiltin NumberPrototype) = JNum 0"
| "reparsed (JBuiltin BooleanPrototype) = JBool False"
| "reparsed v = v"

definition formatted :: "env \<Rightarrow> json \<Rightarrow> content" where
  "formatted E obj =
     (if unwritten obj then Unreadable
      else Document (reparsed (sortDeepKeys (localeCompare E) obj)))"

definition filePath :: "params \<Rightarrow> string \<Rightarrow> string \<Rightarrow> string" where
  "filePath P dir name = localesRoot P @ ''/'' @ dir @ ''/'' @ name"

definition writeJSON :: "env \<Rightarrow> params \<Rightarrow> string \<Rightarrow> string \<Rightarrow> json \<Rightarrow> world \<Rightarrow> world" where
  "writeJSON E P dir name obj w =
     (if dryRun P
      then say Info [Str (''[dry-run] Would write '' @ filePath P dir name)] w
      else w\<lparr>files := (files w)(dir := AList.update name (formatted E obj) (files w dir))\<rparr>)"

text \<open>\<^verbatim>\<open>fsp.rm\<close> rejects when the file is not there.\<close>

definition rm :: "string \<Rightarrow> string \<Rightarrow> world \<Rightarrow> world attempt" where
  "rm dir name w =
     (if name \<in> fst ` set (files w dir)
      then Inr (w\<lparr>files := (files w)(dir := AList.delete name (files w dir))\<rparr>)
      else Inl (FileError, w))"

section \<open>Decisions\<close>

definition promptYesNo :: "env \<Rightarrow> string \<Rightarrow> bool \<Rightarrow> world \<Rightarrow> bool \<times> world" where
  "promptYesNo E message defaultYes w =
     (answers E (length (asked w)), w\<lparr>asked := asked w @ [(message, defaultYes)]\<rparr>)"

text \<open>\<^verbatim>\<open>auto ? automatic : await promptYesNo(message, defaultYes)\<close>, the form of every
  decision of \<^verbatim>\<open>syncLanguage\<close>.\<close>

definition decide :: "env \<Rightarrow> params \<Rightarrow> bool \<Rightarrow> string \<Rightarrow> bool \<Rightarrow> world \<Rightarrow> bool \<times> world" where
  "decide E P automatic message defaultYes w =
     (if auto P then (automatic, w) else promptYesNo E message defaultYes w)"

section \<open>Translating\<close>

text \<open>An awaited \<^verbatim>\<open>translator.translateString\<close>: the remote service answers with the
  reply that is next.\<close>

definition translateIn ::
  "env \<Rightarrow> string \<Rightarrow> string \<Rightarrow> string \<Rightarrow> world \<Rightarrow> (string \<times> world) attempt" where
  "translateIn E txt src dst w =
     (let r = translateString (replies E (length (requests (adapterState w)))) txt src dst
                (adapterState w)
      in case fst r of
           Inl e \<Rightarrow> Inl (e, w\<lparr>adapterState := snd r\<rparr>)
         | Inr v \<Rightarrow> Inr (v, w\<lparr>adapterState := snd r\<rparr>))"

text \<open>The loop of \<^verbatim>\<open>translateWholeFile\<close> over the keys of the flattened tree.\<close>

fun translateLeaves ::
  "env \<Rightarrow> flatMap \<Rightarrow> string \<Rightarrow> string \<Rightarrow> bool \<Rightarrow> string list \<Rightarrow> json \<Rightarrow> world
     \<Rightarrow> (json \<times> world) attempt" where
  "translateLeaves E flat src dst vb [] out w = Inr (out, w)"
| "translateLeaves E flat src dst vb (k # ks) out w =
     (case get flat k of
        JStr s \<Rightarrow>
          (case translateIn E s src dst w of
             Inl f \<Rightarrow> Inl f
           | Inr r \<Rightarrow>
               (case setAtPath out k (JStr (fst r)) of
                  Inl e \<Rightarrow> Inl (PathError e, snd r)
                | Inr out1 \<Rightarrow>
                    translateLeaves E flat src dst vb ks out1
                      (if vb then say Info [Str (''Translated '' @ k)] (snd r) else snd r)))
      | v \<Rightarrow>
          (case setAtPath out k v of
             Inl e \<Rightarrow> Inl (PathError e, w)
           | Inr out1 \<Rightarrow> translateLeaves E flat src dst vb ks out1 w))"

definition translateWholeFile ::
  "env \<Rightarrow> json \<Rightarrow> string \<Rightarrow> string \<Rightarrow> bool \<Rightarrow> world \<Rightarrow> (json \<times> world) attempt" where
  "translateWholeFile E obj src dst vb w =
     translateLeaves E (flatten obj) src dst vb (map fst (flatten obj)) (reparsed obj) w"

section \<open>The orchestrator\<close>

text \<open>A \<^verbatim>\<open>for\<close> loop whose body may throw.\<close>

fun forEach :: "('a \<Rightarrow> 's \<Rightarrow> 's attempt) \<Rightarrow> 'a list \<Rightarrow> 's \<Rightarrow> 's attempt" where
  "forEach body [] s = Inr s"
| "forEach body (x # xs) s =
     (case body x s of Inl f \<Rightarrow> Inl f | Inr s1 \<Rightarrow> forEach body xs s1)"

definition isString :: "json \<Rightarrow> bool" where
  "isString v = (typeof v = ''string'')"

definition stringOf :: "json \<Rightarrow> string" where
  "stringOf v = (case v of JStr s \<Rightarrow> s | _ \<Rightarrow> [])"

text \<open>The bodies of the three loops over the differences of a file. The state is the
  base tree, the target tree and the world.\<close>

definition resolveMissing ::
  "env \<Rightarrow> params \<Rightarrow> string \<Rightarrow> json \<times> json \<times> world \<Rightarrow> (json \<times> json \<times> world) attempt" where
  "resolveMissing E P k st =
     (let baseObj = fst st; langObj = fst (snd st); w = snd (snd st) in
      case getAtPath baseObj k of
        Inl e \<Rightarrow> Inl (PathError e, w)
      | Inr srcVal \<Rightarrow>
          (let w1 = say Log
                 ([Str ([CHR 0xE2, CHR 0x80, CHR 0xA2] @ '' Missing in '' @ lang P @ '': '' @ k)]
                  @ (if isString srcVal then [Str '' = '', Encoded srcVal] else [])) w;
               d = decide E P (\<not> preferRemove P)
                     (''Translate this key into '' @ lang P @ '' (Y) or remove from '' @ base P
                       @ '' (n)?'') True w1
           in if fst d
              then (case (if isString srcVal
                          then (case translateIn E (stringOf srcVal) (base P) (lang P) (snd d) of
                                  Inl f \<Rightarrow> Inl f
                                | Inr r \<Rightarrow> Inr (JStr (fst r), snd r))
                          else Inr (srcVal, snd d)) of
                      Inl f \<Rightarrow> Inl f
                    | Inr tw \<Rightarrow>
                        (case setAtPath langObj k (fst tw) of
                           Inl e \<Rightarrow> Inl (PathError e, snd tw)
                         | Inr langObj1 \<Rightarrow>
                             Inr (baseObj, langObj1,
                                  say Okay [Str (''Added '' @ lang P @ '':'' @ k @ '': ''),
                                            Shown (fst tw)] (snd tw))))
              else (let d2 = decide E P (preferRemove P)
                               (''Remove '' @ base P @ '':'' @ k @ ''?'') False (snd d)
                    in if fst d2
                       then (case deleteAtPath baseObj k of
                               Inl e \<Rightarrow> Inl (PathError e, snd d2)
                             | Inr baseObj1 \<Rightarrow>
                                 Inr (baseObj1, langObj,
                                      say Okay [Str (''Removed '' @ base P @ '':'' @ k)] (snd d2)))
                       else Inr (baseObj, langObj,
                                 say Info [Str (''Skipped '' @ k @ ''.'')] (snd d2)))))"

definition resolveExtra ::
  "env \<Rightarrow> params \<Rightarrow> string \<Rightarrow> json \<times> json \<times> world \<Rightarrow> (json \<times> json \<times> world) attempt" where
  "resolveExtra E P k st =
     (let baseObj = fst st; langObj = fst (snd st); w = snd (snd st) in
      case getAtPath langObj k of
        Inl e \<Rightarrow> Inl (PathError e, w)
      | Inr tgtVal \<Rightarrow>
          (let w1 = say Log
                 ([Str ([CHR 0xE2, CHR 0x80, CHR 0xA2] @ '' Extra in '' @ lang P @ '': '' @ k)]
                  @ (if isString tgtVal then [Str '' = '', Encoded tgtVal] else [])) w;
               d = decide E P (\<not> preferRemove P)
                     (''Add to '' @ base P @ '' by translating (Y) or remove from '' @ lang P
                       @ '' (n)?'') True w1
           in if fst d
              then (case (if isString tgtVal
                          then (case translateIn E (stringOf tgtVal) (lang P) (base P) (snd d) of
                                  Inl f \<Rightarrow> Inl f
                                | Inr r \<Rightarrow> Inr (JStr (fst r), snd r))
                          else Inr (tgtVal, snd d)) of
                      Inl f \<Rightarrow> Inl f
                    | Inr tw \<Rightarrow>
                        (case setAtPath baseObj k (fst tw) of
                           Inl e \<Rightarrow> Inl (PathError e, snd tw)
                         | Inr baseObj1 \<Rightarrow>
                             Inr (baseObj1, langObj,
                                  say Okay [Str (''Added '' @ base P @ '':'' @ k)] (snd tw))))
              else (let d2 = decide E P (preferRemove P)
                               (''Remove '' @ lang P @ '':'' @ k @ ''?'') False (snd d)
                    in if fst d2
                       then (case deleteAtPath langObj k of
                               Inl e \<Rightarrow> Inl (PathError e, snd d2)
                             | Inr langObj1 \<Rightarrow>
                                 Inr (baseObj, langObj1,
                                      say Okay [Str (''Removed '' @ lang P @ '':'' @ k)] (snd d2)))
                       else Inr (baseObj, langObj,
                                 say Info [Str (''Kept '' @ lang P @ '':'' @ k @ ''.'')] (snd d2)))))"

definition resolveMismatch ::
  "env \<Rightarrow> params \<Rightarrow> mismatch \<Rightarrow> json \<times> json \<times> world \<Rightarrow> (json \<times> json \<times> world) attempt" where
  "resolveMismatch E P tm st =
     (let baseObj = fst st; langObj = fst (snd st); w = snd (snd st);
          w1 = say Warn [Str (''Type mismatch at '' @ path tm @ '': '' @ base P @ '' has ''
                              @ baseType tm @ '', '' @ lang P @ '' has '' @ targetType tm)] w;
          d = decide E P True
                (''Overwrite '' @ lang P @ '' with '' @ base P @ [CHR 0x27] @ ''s shape at ''
                  @ path tm @ ''?'') True w1
      in if fst d
         then (case getAtPath baseObj (path tm) of
                 Inl e \<Rightarrow> Inl (PathError e, snd d)
               | Inr v \<Rightarrow>
                   (case setAtPath langObj (path tm) v of
                      Inl e \<Rightarrow> Inl (PathError e, snd d)
                    | Inr langObj1 \<Rightarrow>
                        Inr (baseObj, langObj1,
                             say Okay [Str (''Overwrote '' @ lang P @ '':'' @ path tm
                                            @ '' to match '' @ base P)] (snd d))))
         else (let d2 = decide E P False
                          (''Overwrite '' @ base P @ '' with '' @ lang P @ [CHR 0x27]
                            @ ''s shape at '' @ path tm @ ''?'') False (snd d)
               in if fst d2
                  then (case getAtPath langObj (path tm) of
                          Inl e \<Rightarrow> Inl (PathError e, snd d2)
                        | Inr v \<Rightarrow>
                            (case setAtPath baseObj (path tm) v of
                               Inl e \<Rightarrow> Inl (PathError e, snd d2)
                             | Inr baseObj1 \<Rightarrow>
                                 Inr (baseObj1, langObj,
                                      say Okay [Str (''Overwrote '' @ base P @ '':'' @ path tm
                                                     @ '' to match '' @ lang P)] (snd d2))))
                  else Inr (baseObj, langObj,
                            say Info [Str (''Left mismatch at '' @ path tm @ '' unchanged.'')]
                              (snd d2))))"

text \<open>The body of the loop over the files that both directories have.\<close>

definition syncCommonFile :: "env \<Rightarrow> params \<Rightarrow> string \<Rightarrow> world \<Rightarrow> world attempt" where
  "syncCommonFile E P file w =
     (let baseObj = readJSONSync (files w) (base P) file;
          langObj = readJSONSync (files w) (lang P) file;
          d = diffKeys baseObj langObj
      in if length (missingInTarget d) = 0 \<and> length (extraInTarget d) = 0
            \<and> length (typeMismatches d) = 0
         then Inr (if verbose P
                   then say Okay [Str (lang P @ ''/'' @ file @ '' is in sync.'')] w
                   else w)
         else (case forEach (resolveMissing E P) (missingInTarget d)
                      (baseObj, langObj, say Info [Str ([CHR 0x0A] @ ''File: '' @ file)] w) of
                 Inl f \<Rightarrow> Inl f
               | Inr st1 \<Rightarrow>
                   (case forEach (resolveExtra E P) (extraInTarget d) st1 of
                      Inl f \<Rightarrow> Inl f
                    | Inr st2 \<Rightarrow>
                        (case forEach (resolveMismatch E P) (typeMismatches d) st2 of
                           Inl f \<Rightarrow> Inl f
                         | Inr st3 \<Rightarrow>
                             Inr (writeJSON E P (lang P) file (fst (snd st3))
                                   (writeJSON E P (base P) file (fst st3) (snd (snd st3))))))))"

text \<open>The bodies of the loops over the files that only one directory has.\<close>

definition syncMissingFile :: "env \<Rightarrow> params \<Rightarrow> string \<Rightarrow> world \<Rightarrow> world attempt" where
  "syncMissingFile E P file w =
     (let baseObj = readJSONSync (files w) (base P) file;
          d = decide E P (\<not> preferRemove P)
                (lang P @ ''/'' @ file @ '' missing. Create by translating from '' @ base P @ ''?'')
                True w
      in if fst d
         then (case translateWholeFile E baseObj (base P) (lang P) (verbose P) (snd d) of
                 Inl f \<Rightarrow> Inl f
               | Inr r \<Rightarrow>
                   Inr (say Okay [Str (lang P @ ''/'' @ file @ '' created.'')]
                         (writeJSON E P (lang P) file (fst r) (snd r))))
         else (let d2 = decide E P (preferRemove P)
                          (''Remove '' @ base P @ ''/'' @ file @ '' instead?'') False (snd d)
               in if fst d2
                  then (case (if \<not> dryRun P then rm (base P) file (snd d2) else Inr (snd d2)) of
                          Inl f \<Rightarrow> Inl f
                        | Inr w3 \<Rightarrow>
                            Inr (say Okay [Str (''Removed '' @ base P @ ''/'' @ file @ ''.'')] w3))
                  else Inr (say Info [Str (''Skipped '' @ lang P @ ''/'' @ file @ ''.'')] (snd d2))))"

definition syncExtraFile :: "env \<Rightarrow> params \<Rightarrow> string \<Rightarrow> world \<Rightarrow> world attempt" where
  "syncExtraFile E P file w =
     (let d = decide E P (\<not> preferRemove P)
                (lang P @ ''/'' @ file @ '' exists but '' @ base P @ ''/'' @ file
                  @ '' does not. Add to base by translating?'') True w
      in if fst d
         then (case translateWholeFile E (readJSONSync (files (snd d)) (lang P) file)
                      (lang P) (base P) (verbose P) (snd d) of
                 Inl f \<Rightarrow> Inl f
               | Inr r \<Rightarrow>
                   Inr (say Okay [Str (''Added '' @ base P @ ''/'' @ file @ ''.'')]
                         (writeJSON E P (base P) file (fst r) (snd r))))
         else (let d2 = decide E P (preferRemove P)
                          (''Remove '' @ lang P @ ''/'' @ file @ ''?'') False (snd d)
               in if fst d2
                  then (case (if \<not> dryRun P then rm (lang P) file (snd d2) else Inr (snd d2)) of
                          Inl f \<Rightarrow> Inl f
                        | Inr w3 \<Rightarrow>
                            Inr (say Okay [Str (''Removed '' @ lang P @ ''/'' @ file @ ''.'')] w3))
                  else Inr (say Info [Str (''Kept '' @ lang P @ ''/'' @ file @ ''.'')] (snd d2))))"

definition syncLanguage :: "env \<Rightarrow> params \<Rightarrow> world \<Rightarrow> world attempt" where
  "syncLanguage E P w =
     (let baseFiles = uniq (listJsonFiles E (files w (base P)));
          langFiles = uniq (listJsonFiles E (files w (lang P)));
          filesMissingInLang = filter (\<lambda>f. f \<notin> set langFiles) baseFiles;
          filesExtraInLang = filter (\<lambda>f. f \<notin> set baseFiles) langFiles;
          w0 = say Info [Str ([CHR 0x0A, CHR 0xE2, CHR 0x86, CHR 0x92] @ '' Comparing '' @ lang P
                              @ '' '' @ [CHR 0xE2, CHR 0x86, CHR 0x94] @ '' '' @ base P)] w;
          w1 = (if length filesMissingInLang \<noteq> 0
                then say Warn [Str (lang P @ '': Missing files: ''
                                    @ joinWith '', '' filesMissingInLang)] w0
                else w0);
          w2 = (if length filesExtraInLang \<noteq> 0
                then say Warn [Str (lang P @ '': Extra files (not in '' @ base P @ ''): ''
                                    @ joinWith '', '' filesExtraInLang)] w1
                else w1);
          w3 = (if length filesMissingInLang = 0 \<and> length filesExtraInLang = 0
                then say Okay [Str (''File sets match ('' @ lang P @ '').'')] w2
                else w2);
          commonFiles = filter (\<lambda>f. f \<in> set langFiles) baseFiles
      in case forEach (syncMissingFile E P) filesMissingInLang w3 of
           Inl f \<Rightarrow> Inl f
         | Inr w4 \<Rightarrow>
             (case forEach (syncExtraFile E P) filesExtraInLang w4 of
                Inl f \<Rightarrow> Inl f
              | Inr w5 \<Rightarrow> forEach (syncCommonFile E P) commonFiles w5))"

text \<open>The world a run ends in, thrown or not.\<close>

definition finalWorld :: "world attempt \<Rightarrow> world" where
  "finalWorld r = (case r of Inl f \<Rightarrow> snd f | Inr w \<Rightarrow> w)"

section \<open>Vocabulary of the properties\<close>

text \<open>The record \<^verbatim>\<open>diffKeys\<close> pushes for an entry of the flattened base, and the test
  under which it pushes it.\<close>

definition mismatchOf :: "flatMap \<Rightarrow> string \<times> json \<Rightarrow> mismatch" where
  "mismatchOf targetFlat kv =
     \<lparr>path = fst kv, baseType = shape (snd kv), targetType = shape (get targetFlat (fst kv))\<rparr>"

definition differs :: "flatMap \<Rightarrow> string \<times> json \<Rightarrow> bool" where
  "differs targetFlat kv =
     (has targetFlat (fst kv) \<and> shape (snd kv) \<noteq> shape (get targetFlat (fst kv)))"

definition sampleBase :: json where
  "sampleBase =
     JObj [(''a'', JStr ''x''), (''b'', JObj [(''c'', JNum 1)]), (''d'', JArr [] [])]"

definition sampleTarget :: json where
  "sampleTarget = JObj [(''a'', JNum 2), (''e'', JNull), (''d'', JArr [JNum 1] [])]"

text \<open>The object \<^verbatim>\<open>setAtPath\<close> builds below a segment it finds no object or array at: one
  object for each remaining segment, the value in the innermost.\<close>

fun fresh :: "string list \<Rightarrow> json \<Rightarrow> json" where
  "fresh [] v = v"
| "fresh (k # ks) v = JObj [(k, fresh ks v)]"

definition sampleTree :: json where
  "sampleTree = JObj [(''a'', JObj [(''b'', JStr ''x'')]), (''n'', JNum 5)]"

definition sampleList :: json where
  "sampleList = JObj [(''a'', JArr [JNum 7] [])]"

text \<open>The round trip of C4: every entry of a flattened map is written with \<^verbatim>\<open>setAtPath\<close> into
  a tree that starts empty; a failed write stops the rest. Two trees are the same when
  they are the same objects up to the order of the keys, and the same values elsewhere.\<close>

definition store :: "string \<times> json \<Rightarrow> failure + json \<Rightarrow> failure + json" where
  "store e acc = (case acc of Inl err \<Rightarrow> Inl err | Inr t \<Rightarrow> setAtPath t (fst e) (snd e))"

definition rebuild :: "flatMap \<Rightarrow> failure + json" where
  "rebuild m = fold store m (Inr (JObj []))"

fun sameTree :: "json \<Rightarrow> json \<Rightarrow> bool" where
  "sameTree (JObj xs) (JObj ys) =
     (set (map fst xs) = set (map fst ys)
      \<and> (\<forall>x \<in> set xs. \<forall>y \<in> set ys. fst x = fst y \<longrightarrow> sameTree (snd x) (snd y)))"
| "sameTree a b = (a = b)"

text \<open>The trees the round trip gives back: an object in which no key has a dot or is
  \<^verbatim>\<open>__proto__\<close>, no plain object below the root is empty, the keys of an object differ, and
  the root does not bind the empty key to a plain object. Whatever is no plain object is
  a leaf, whole.\<close>

definition dotless :: "string \<Rightarrow> bool" where
  "dotless k = (CHR ''.'' \<notin> set k)"

definition plainKey :: "string \<Rightarrow> bool" where
  "plainKey k = (dotless k \<and> k \<noteq> ''__proto__'')"

fun leafy :: "json \<Rightarrow> bool" where
  "leafy (JObj kvs) =
     (kvs \<noteq> [] \<and> distinct (map fst kvs) \<and> (\<forall>e \<in> set kvs. plainKey (fst e) \<and> leafy (snd e)))"
| "leafy (JBuiltin b) = False"
| "leafy v = True"

definition plainTree :: "json \<Rightarrow> bool" where
  "plainTree T =
     (case T of
        JObj kvs \<Rightarrow>
          distinct (map fst kvs)
          \<and> (\<forall>e \<in> set kvs. plainKey (fst e) \<and> leafy (snd e)
                 \<and> (fst e = [] \<longrightarrow> \<not> isPlainObject (snd e)))
      | _ \<Rightarrow> False)"

text \<open>What the writes build: the flattening visits the entries of an object last to
  first, and every key is added to its object when its first leaf is written.\<close>

fun mirror :: "json \<Rightarrow> json" where
  "mirror (JObj kvs) = JObj (rev (ordered (map (\<lambda>e. (fst e, mirror (snd e))) kvs)))"
| "mirror v = v"

text \<open>The leaves of a tree with their segments, in the order the stack visits them, the
  path \<^verbatim>\<open>flatten\<close> computes for a list of segments, and the entries one stack element
  accounts for.\<close>

fun leaves :: "json \<Rightarrow> (string list \<times> json) list" where
  "leaves (JObj kvs) =
     concat (map snd (rev (ordered
       (map (\<lambda>e. (fst e, map (\<lambda>l. (fst e # fst l, snd l)) (leaves (snd e)))) kvs))))"
| "leaves (JBuiltin b) = []"
| "leaves v = [([], v)]"

definition pathOf :: "string \<Rightarrow> string list \<Rightarrow> string" where
  "pathOf p segs = foldl nextPath p segs"

definition emit :: "json \<times> string \<Rightarrow> flatMap" where
  "emit e = map (\<lambda>l. (pathOf (snd e) (fst l), snd l)) (leaves (fst e))"

definition setEntry :: "string \<times> json \<Rightarrow> flatMap \<Rightarrow> flatMap" where
  "setEntry e out = AList.update (fst e) (snd e) out"

text \<open>Segments that \<open>split_dot\<close> gives back from their path.\<close>

definition goodSegs :: "string list \<Rightarrow> bool" where
  "goodSegs segs = (segs \<noteq> [] \<and> list_all dotless segs \<and> (hd segs = [] \<longrightarrow> tl segs = []))"

definition under :: "string \<times> json \<Rightarrow> (string list \<times> json) list" where
  "under e = map (\<lambda>l. (fst e # fst l, snd l)) (leaves (snd e))"

text \<open>The writes of the round trip, on segments.\<close>

definition storeSegs :: "string list \<times> json \<Rightarrow> failure + json \<Rightarrow> failure + json" where
  "storeSegs l acc =
     (case acc of Inl err \<Rightarrow> Inl err | Inr t \<Rightarrow> setAtPath_loop t (fst l) (snd l))"

definition putAll :: "(string list \<times> json) list \<Rightarrow> failure + json \<Rightarrow> failure + json" where
  "putAll es acc = fold storeSegs es acc"

definition mirrored :: "string \<times> json \<Rightarrow> string \<times> json" where
  "mirrored e = (fst e, mirror (snd e))"

definition sampleNested :: json where
  "sampleNested =
     JObj [(''a'', JObj [(''x'', JNum 1), (''y'', JStr ''s'')]), (''b'', JArr [JNull] []), ([], JBool True)]"

text \<open>A call holds a slot from the moment \<^verbatim>\<open>acquire\<close> resolves for it until its
  \<^verbatim>\<open>finally\<close> block has run; its remote call is outstanding while it is in flight. A state
  is sound when \<^verbatim>\<open>running\<close> counts the calls that hold a slot, does not exceed the
  concurrency, and the queue lists suspended calls, each once.\<close>

definition holding :: "activation \<Rightarrow> bool" where
  "holding a = (phase a = Granted \<or> phase a = InFlight)"

definition holders :: "adapter \<Rightarrow> nat" where
  "holders s = length (filter holding (calls s))"

definition outstanding :: "adapter \<Rightarrow> nat" where
  "outstanding s = length (filter (\<lambda>a. phase a = InFlight) (calls s))"

definition sound :: "adapter \<Rightarrow> bool" where
  "sound s =
     (running (tr s) = int (holders s) \<and> running (tr s) \<le> concurrency (tr s)
      \<and> distinct (queue (tr s))
      \<and> (\<forall>j \<in> set (queue (tr s)). j < length (calls s) \<and> phase (calls s ! j) = Queued))"

definition sampleEvents :: "event list" where
  "sampleEvents = [Call ''a'' ''en'' ''fr'', Call ''b'' ''en'' ''fr'', Resume 0]"

text \<open>The world at the end of an attempt, thrown or not, for a result that carries a
  world.\<close>

definition endOf :: "('s \<Rightarrow> world) \<Rightarrow> 's attempt \<Rightarrow> world" where
  "endOf wld r = (case r of Inl f \<Rightarrow> snd f | Inr s \<Rightarrow> wld s)"

definition treesWorld :: "json \<times> json \<times> world \<Rightarrow> world" where
  "treesWorld st = snd (snd st)"

text \<open>Automatic mode puts no question. To compare it with a run in which a user answers,
  the record of the questions is set aside; \<open>answering\<close> is the user who answers the
  next question with the negation of \<^verbatim>\<open>preferRemove\<close> and every later one with
  \<^verbatim>\<open>preferRemove\<close>.\<close>

definition forgetAsked :: "world \<Rightarrow> world" where
  "forgetAsked w = w\<lparr>asked := []\<rparr>"

definition answering :: "env \<Rightarrow> params \<Rightarrow> world \<Rightarrow> env" where
  "answering E P w =
     E\<lparr>answers := (\<lambda>n. if n = length (asked w) then \<not> preferRemove P else preferRemove P)\<rparr>"

definition unasked :: "world attempt \<Rightarrow> world attempt" where
  "unasked r = (case r of Inl f \<Rightarrow> Inl (fst f, forgetAsked (snd f)) | Inr w \<Rightarrow> Inr (forgetAsked w))"

definition unaskedTrees :: "(json \<times> json \<times> world) attempt \<Rightarrow> (json \<times> json \<times> world) attempt" where
  "unaskedTrees r =
     (case r of
        Inl f \<Rightarrow> Inl (fst f, forgetAsked (snd f))
      | Inr st \<Rightarrow> Inr (fst st, fst (snd st), forgetAsked (snd (snd st))))"

definition withAsked :: "(string \<times> bool) list \<Rightarrow> ('a \<times> world) attempt \<Rightarrow> ('a \<times> world) attempt" where
  "withAsked x r =
     (case r of
        Inl f \<Rightarrow> Inl (fst f, (snd f)\<lparr>asked := x\<rparr>)
      | Inr vw \<Rightarrow> Inr (fst vw, (snd vw)\<lparr>asked := x\<rparr>))"

text \<open>A run with \<^verbatim>\<open>dryRun\<close> and the run without it differ in the directories and in
  the lines logged, and in nothing else. \<^verbatim>\<open>core\<close> is what is left of a world without
  these two, \<^verbatim>\<open>relocate\<close> gives a world other directories and lines logged before its
  own, and \<^verbatim>\<open>overValue\<close>, \<^verbatim>\<open>overTrees\<close> and \<^verbatim>\<open>overEnd\<close> change the world an attempt ends
  in, thrown or not.\<close>

definition relocate ::
  "(string \<Rightarrow> directory) \<Rightarrow> (level \<times> fragment list) list \<Rightarrow> world \<Rightarrow> world" where
  "relocate F C w = w\<lparr>files := F, console := C @ console w\<rparr>"

definition core :: "world \<Rightarrow> world" where
  "core w = w\<lparr>files := (\<lambda>d. []), console := []\<rparr>"

definition overValue :: "(world \<Rightarrow> world) \<Rightarrow> ('a \<times> world) attempt \<Rightarrow> ('a \<times> world) attempt" where
  "overValue h r =
     (case r of Inl f \<Rightarrow> Inl (fst f, h (snd f)) | Inr vw \<Rightarrow> Inr (fst vw, h (snd vw)))"

definition overTrees ::
  "(world \<Rightarrow> world) \<Rightarrow> (json \<times> json \<times> world) attempt \<Rightarrow> (json \<times> json \<times> world) attempt" where
  "overTrees h r =
     (case r of
        Inl f \<Rightarrow> Inl (fst f, h (snd f))
      | Inr st \<Rightarrow> Inr (fst st, fst (snd st), h (snd (snd st))))"

definition overEnd :: "(world \<Rightarrow> world) \<Rightarrow> world attempt \<Rightarrow> world attempt" where
  "overEnd h r = (case r of Inl f \<Rightarrow> Inl (fst f, h (snd f)) | Inr w \<Rightarrow> Inr (h w))"

text \<open>Sample runs.\<close>

definition sampleEnv :: env where
  "sampleEnv = \<lparr>localeCompare = (\<lambda>a b. True), answers = (\<lambda>n. True),
                 replies = (\<lambda>n. Completed (Some ''Salut {n}''))\<rparr>"

definition autoRemove :: params where
  "autoRemove = \<lparr>localesRoot = ''i18n'', base = ''en'', lang = ''fr'', dryRun = False, auto = True,
                  preferRemove = True, verbose = False\<rparr>"

definition dryCreate :: params where
  "dryCreate = \<lparr>localesRoot = ''i18n'', base = ''en'', lang = ''fr'', dryRun = True, auto = True,
                 preferRemove = False, verbose = False\<rparr>"

definition extraKeyFiles :: "string \<Rightarrow> directory" where
  "extraKeyFiles d =
     (if d = ''en'' then [(''x.json'', Document (JObj [(''x'', JStr ''1'')]))]
      else if d = ''fr''
      then [(''x.json'', Document (JObj [(''x'', JStr ''1''), (''y'', JStr ''2'')]))]
      else [])"

definition missingFileFiles :: "string \<Rightarrow> directory" where
  "missingFileFiles d =
     (if d = ''en''
      then [(''x.json'', Document (JObj [(''a'', JObj [(''b'', JStr ''Hi {n}'')])]))]
      else [])"

definition inSyncFiles :: "string \<Rightarrow> directory" where
  "inSyncFiles d =
     (if d = ''en'' then [(''x.json'', Document (JObj [(''x'', JStr ''one'')]))]
      else if d = ''fr'' then [(''x.json'', Document (JObj [(''x'', JStr ''un'')]))]
      else [])"

definition worldWith :: "(string \<Rightarrow> directory) \<Rightarrow> world" where
  "worldWith fs = \<lparr>files = fs, adapterState = start Map.empty 3, console = [], asked = []\<rparr>"

section \<open>Properties of the flattened map\<close>

lemma flatten_loop_distinct:
  "distinct (map fst out) \<Longrightarrow> distinct (map fst (flatten_loop stack out))"
  by (induction stack out rule: flatten_loop.induct) (auto simp: distinct_update)

lemma flatten_distinct: "distinct (map fst (flatten t))"
  by (simp add: flatten_def flatten_from_def flatten_loop_distinct)

lemma get_of_entry: "distinct (map fst m) \<Longrightarrow> (k, v) \<in> set m \<Longrightarrow> get m k = v"
  by (simp add: get_def)

section \<open>diffKeys\<close>

lemma fold_diffBase:
  "fold (diffBase T) xs acc =
     (fst acc @ filter (\<lambda>k. \<not> has T k) (map fst xs),
      snd acc @ map (mismatchOf T) (filter (differs T) xs))"
proof (induction xs arbitrary: acc)
  case Nil
  show ?case by simp
next
  case (Cons x xs)
  show ?case
    by (simp add: Cons.IH) (simp add: diffBase_def Let_def mismatchOf_def differs_def)
qed

lemma fold_diffTarget:
  "fold (diffTarget B) xs acc = acc @ filter (\<lambda>k. \<not> has B k) (map fst xs)"
  by (induction xs arbitrary: acc) (simp_all add: diffTarget_def)

lemma missing_eq:
  "missingInTarget (diffKeys B T) = filter (\<lambda>k. \<not> has (flatten T) k) (map fst (flatten B))"
  by (simp add: diffKeys_def Let_def fold_diffBase)

lemma extra_eq:
  "extraInTarget (diffKeys B T) = filter (\<lambda>k. \<not> has (flatten B) k) (map fst (flatten T))"
  by (simp add: diffKeys_def Let_def fold_diffTarget)

lemma mismatches_eq:
  "typeMismatches (diffKeys B T)
     = map (mismatchOf (flatten T)) (filter (differs (flatten T)) (flatten B))"
  by (simp add: diffKeys_def Let_def fold_diffBase)

lemma count_key_once:
  "distinct (map fst xs) \<Longrightarrow> (p, v) \<in> set xs \<Longrightarrow> Q (p, v) \<Longrightarrow>
   length (filter (\<lambda>kv. fst kv = p) (filter Q xs)) = 1"
proof (induction xs)
  case Nil
  then show ?case by simp
next
  case (Cons x xs)
  show ?case
  proof (cases "x = (p, v)")
    case True
    with Cons.prems have "p \<notin> fst ` set xs" by auto
    then have "filter (\<lambda>kv. fst kv = p) (filter Q xs) = []"
      by (auto simp: filter_empty_conv)
    with True Cons.prems show ?thesis by simp
  next
    case False
    with Cons.prems have in_xs: "(p, v) \<in> set xs" by auto
    with Cons.prems have "fst x \<noteq> p" by (auto simp: image_iff)
    with Cons in_xs show ?thesis by simp
  qed
qed

lemma sample_flat:
  "flatten sampleBase = [(''d'', JArr [] []), (''b.c'', JNum 1), (''a'', JStr ''x'')]"
  "flatten sampleTarget = [(''d'', JArr [JNum 1] []), (''e'', JNull), (''a'', JNum 2)]"
  by (simp_all add: sampleBase_def sampleTarget_def flatten_def flatten_from_def
      push_entries_def nextPath_def ordered_def arrayIndex_def isDigit_def)

text \<open>
  C5. For all trees \<open>B\<close> and \<open>T\<close>: the paths in \<open>missingInTarget\<close> are the paths of the
  flattened \<open>B\<close> that the flattened \<open>T\<close> does not have, the paths in \<open>extraInTarget\<close>
  are those of the flattened \<open>T\<close> that the flattened \<open>B\<close> does not have (each listed
  once), and a path that both have, with values of different shapes, is the path of
  exactly one record of \<open>typeMismatches\<close> and is in neither of the two lists.
\<close>

theorem diffKeys_sets:
  "set (missingInTarget (diffKeys B T)) = set (map fst (flatten B)) - set (map fst (flatten T))
   \<and> set (extraInTarget (diffKeys B T)) = set (map fst (flatten T)) - set (map fst (flatten B))
   \<and> distinct (missingInTarget (diffKeys B T)) \<and> distinct (extraInTarget (diffKeys B T))
   \<and> (\<forall>p \<in> set (map fst (flatten B)) \<inter> set (map fst (flatten T)).
         shape (get (flatten B) p) \<noteq> shape (get (flatten T) p) \<longrightarrow>
           length (filter (\<lambda>m. path m = p) (typeMismatches (diffKeys B T))) = 1
           \<and> p \<notin> set (missingInTarget (diffKeys B T))
           \<and> p \<notin> set (extraInTarget (diffKeys B T)))"
proof (intro conjI ballI impI)
  show "set (missingInTarget (diffKeys B T)) = set (map fst (flatten B)) - set (map fst (flatten T))"
    by (auto simp: missing_eq has_def)
  show "set (extraInTarget (diffKeys B T)) = set (map fst (flatten T)) - set (map fst (flatten B))"
    by (auto simp: extra_eq has_def)
  show "distinct (missingInTarget (diffKeys B T))"
    by (simp add: missing_eq flatten_distinct)
  show "distinct (extraInTarget (diffKeys B T))"
    by (simp add: extra_eq flatten_distinct)
next
  fix p
  assume both: "p \<in> set (map fst (flatten B)) \<inter> set (map fst (flatten T))"
    and sh: "shape (get (flatten B) p) \<noteq> shape (get (flatten T) p)"
  from both obtain v where v: "(p, v) \<in> set (flatten B)" by auto
  then have gv: "get (flatten B) p = v"
    using flatten_distinct get_of_entry by blast
  from both have hasT: "has (flatten T) p" by (simp add: has_def)
  have "differs (flatten T) (p, v)"
    using hasT sh gv by (simp add: differs_def)
  then have "length (filter (\<lambda>kv. fst kv = p) (filter (differs (flatten T)) (flatten B))) = 1"
    using count_key_once[OF flatten_distinct v] by blast
  moreover have "filter (\<lambda>m. path m = p) (map (mismatchOf (flatten T)) xs)
        = map (mismatchOf (flatten T)) (filter (\<lambda>kv. fst kv = p) xs)" for xs
    by (induction xs) (simp_all add: mismatchOf_def)
  ultimately show "length (filter (\<lambda>m. path m = p) (typeMismatches (diffKeys B T))) = 1"
    by (simp add: mismatches_eq)
  show "p \<notin> set (missingInTarget (diffKeys B T))"
    using hasT by (simp add: missing_eq)
  show "p \<notin> set (extraInTarget (diffKeys B T))"
    using both by (simp add: extra_eq has_def)
qed

theorem diffKeys_sets_witness:
  "''a'' \<in> set (map fst (flatten sampleBase)) \<inter> set (map fst (flatten sampleTarget))
   \<and> shape (get (flatten sampleBase) ''a'') \<noteq> shape (get (flatten sampleTarget) ''a'')
   \<and> set (missingInTarget (diffKeys sampleBase sampleTarget)) = {''b.c''}
   \<and> set (extraInTarget (diffKeys sampleBase sampleTarget)) = {''e''}
   \<and> length (filter (\<lambda>m. path m = ''a'') (typeMismatches (diffKeys sampleBase sampleTarget))) = 1
   \<and> ''a'' \<notin> set (missingInTarget (diffKeys sampleBase sampleTarget))
   \<and> ''a'' \<notin> set (extraInTarget (diffKeys sampleBase sampleTarget))"
proof -
  have mem: "''a'' \<in> set (map fst (flatten sampleBase)) \<inter> set (map fst (flatten sampleTarget))"
    by (simp add: sample_flat)
  have sh: "shape (get (flatten sampleBase) ''a'') \<noteq> shape (get (flatten sampleTarget) ''a'')"
    by (simp add: sample_flat get_def shape_def)
  note main = diffKeys_sets[of sampleBase sampleTarget]
  from main have m: "set (missingInTarget (diffKeys sampleBase sampleTarget)) = {''b.c''}"
    by (auto simp: sample_flat)
  from main have e: "set (extraInTarget (diffKeys sampleBase sampleTarget)) = {''e''}"
    by (auto simp: sample_flat)
  from main mem sh
  have "length (filter (\<lambda>m. path m = ''a'') (typeMismatches (diffKeys sampleBase sampleTarget))) = 1
        \<and> ''a'' \<notin> set (missingInTarget (diffKeys sampleBase sampleTarget))
        \<and> ''a'' \<notin> set (extraInTarget (diffKeys sampleBase sampleTarget))"
    by blast
  with mem sh m e show ?thesis by blast
qed

section \<open>The path functions\<close>

lemma notContainer_simps [simp]:
  "notContainer JUndefined" "notContainer JNull" "notContainer (JBool b)" "notContainer (JNum n)"
  "notContainer (JStr s)" "\<not> notContainer (JArr xs ps)" "\<not> notContainer (JObj kvs)"
  "notContainer (JFunction p name)" "\<not> notContainer (JBuiltin p)"
  by (simp_all add: notContainer_def)

lemma container_cases:
  "\<not> notContainer cur \<Longrightarrow>
     (\<exists>kvs. cur = JObj kvs) \<or> (\<exists>xs ps. cur = JArr xs ps) \<or> (\<exists>b. cur = JBuiltin b)"
  by (cases cur) simp_all

lemma readProp_container: "\<not> notContainer cur \<Longrightarrow> \<exists>v. readProp cur seg = Inr v"
  by (cases cur) simp_all

lemma arrayIndex_proto [simp]: "arrayIndex ''__proto__'' = None"
  by (simp add: arrayIndex_def isDigit_def)

lemma ownOf_proto [simp]: "ownOf b ''__proto__'' = None"
  by (cases b) (simp_all add: ownOf_def)

lemma ownOf_notContainer: "ownOf b seg = Some v \<Longrightarrow> notContainer v"
  by (auto simp: ownOf_def split: if_splits)

lemma inherited_notContainer [simp]: "notContainer (inherited b seg)"
  by (auto simp: inherited_def dest: ownOf_notContainer split: option.splits)

lemma protoOf_kind: "protoOf cur = JNull \<or> (\<exists>b. protoOf cur = JBuiltin b)"
  by (cases cur) simp_all

text \<open>A read that finds an object or an array finds an own property of an object or of
  an array, or it is \<^verbatim>\<open>__proto__\<close> and finds the prototype.\<close>

lemma read_container:
  assumes "readProp cur seg = Inr child" and "\<not> notContainer child"
  shows "(own cur seg = Some child \<and> (\<forall>b. cur \<noteq> JBuiltin b))
       \<or> (seg = ''__proto__'' \<and> own cur seg = None \<and> child = protoOf cur)"
proof (cases "own cur seg")
  case None
  with assms show ?thesis by (cases cur) (auto split: if_splits)
next
  case (Some v)
  with assms have v: "v = child" by (cases cur) auto
  show ?thesis
  proof (cases cur)
    case (JBuiltin b)
    with Some v assms(2) ownOf_notContainer[of b seg child] show ?thesis by simp
  qed (use Some v in simp_all)
qed

lemma getAtPath_loop_total: "\<exists>v. getAtPath_loop cur parts = Inr v"
proof (induction parts arbitrary: cur)
  case Nil
  show ?case by simp
next
  case (Cons part parts)
  show ?case
  proof (cases "notContainer cur")
    case True
    then show ?thesis by simp
  next
    case False
    then obtain v where "readProp cur part = Inr v" using readProp_container by blast
    with False Cons.IH[of v] show ?thesis by simp
  qed
qed

lemma getAtPath_loop_notContainer:
  "notContainer cur \<Longrightarrow> parts \<noteq> [] \<Longrightarrow> getAtPath_loop cur parts = Inr JUndefined"
  by (cases parts) simp_all

lemma getAtPath_loop_append:
  "getAtPath_loop cur q = Inr u \<Longrightarrow> getAtPath_loop cur (q @ r) = getAtPath_loop u r"
proof (induction q arbitrary: cur)
  case Nil
  then show ?case by simp
next
  case (Cons part q)
  show ?case
  proof (cases "notContainer cur")
    case True
    with Cons.prems have "u = JUndefined" by simp
    with True show ?thesis by (cases r) simp_all
  next
    case False
    then obtain v where v: "readProp cur part = Inr v" using readProp_container by blast
    with False Cons.prems have "getAtPath_loop v q = Inr u" by simp
    from Cons.IH[OF this] False v show ?thesis by simp
  qed
qed

text \<open>Below a prototype object there is no object and no array of the tree.\<close>

lemma builtin_get:
  "getAtPath_loop (JBuiltin b) q = Inr v \<Longrightarrow> notContainer v \<or> (\<exists>b'. v = JBuiltin b')"
proof (induction q arbitrary: b)
  case Nil
  then show ?case by auto
next
  case (Cons seg q)
  obtain c where c: "readProp (JBuiltin b) seg = Inr c" by simp
  have kind: "notContainer c \<or> (\<exists>b'. c = JBuiltin b')"
  proof (cases "notContainer c")
    case False
    from read_container[OF c False] protoOf_kind[of "JBuiltin b"] False show ?thesis by auto
  qed simp
  from Cons.prems c have g: "getAtPath_loop c q = Inr v" by simp
  show ?case
  proof (cases "notContainer c")
    case True
    with g show ?thesis by (cases q) auto
  next
    case False
    with kind obtain b' where "c = JBuiltin b'" by auto
    with g Cons.IH show ?thesis by simp
  qed
qed

subsection \<open>Writing\<close>

lemma nth_past_end: "(xs @ replicate (i - length xs) u @ [x]) ! i = x" if "\<not> i < length xs"
proof -
  from that have "(xs @ replicate (i - length xs) u @ [x]) ! i
      = (replicate (i - length xs) u @ [x]) ! (i - length xs)"
    by (simp add: nth_append)
  also have "\<dots> = x" by (simp add: nth_append)
  finally show ?thesis .
qed

lemma lengthOf_container: "\<not> notContainer x \<Longrightarrow> \<exists>e. lengthOf x = Inl e"
  by (cases x) (auto split: option.splits json.splits)

text \<open>An assignment is read back, unless it is taken by the setter of \<^verbatim>\<open>__proto__\<close> or
  converted to a length.\<close>

lemma readProp_assign:
  assumes "assign cur seg x = Inr cur'" and "\<not> notContainer x"
    and "seg \<noteq> ''__proto__'' \<or> own cur seg \<noteq> None"
  shows "readProp cur' seg = Inr x"
proof (cases cur)
  case (JObj kvs)
  with assms show ?thesis by (auto simp: update_conv' split: if_splits)
next
  case (JArr xs ps)
  show ?thesis
  proof (cases "arrayIndex seg")
    case (Some i)
    with JArr assms(1) show ?thesis by (auto simp: nth_past_end)
  next
    case None
    with JArr assms lengthOf_container[OF assms(2)] show ?thesis
      by (auto simp: update_conv' split: if_splits sum.splits)
  qed
next
  case (JBuiltin b)
  with assms show ?thesis by (auto split: if_splits)
qed (use assms in \<open>auto split: if_splits option.splits\<close>)

lemma assign_container:
  "assign cur seg x = Inr cur' \<Longrightarrow> seg \<noteq> ''__proto__'' \<or> own cur seg \<noteq> None \<Longrightarrow>
   \<not> notContainer cur \<and> \<not> notContainer cur'"
  by (cases cur) (auto split: option.splits if_splits sum.splits)

lemma assign_same:
  "assign cur seg x = Inr cur' \<Longrightarrow> notContainer cur' = notContainer cur"
  by (cases cur) (auto simp: setProto_def split: option.splits if_splits sum.splits)

lemma setAtPath_loop_same:
  "setAtPath_loop cur parts v = Inr cur' \<Longrightarrow> notContainer cur' = notContainer cur"
proof (induction cur parts v arbitrary: cur' rule: setAtPath_loop.induct)
  case (1 cur v)
  then show ?case using assign_same[of cur "''undefined''" v cur'] by simp
next
  case (2 cur lastKey v)
  then show ?case using assign_same[of cur lastKey v cur'] by simp
next
  case (3 cur seg k2 ks v)
  from "3.prems" obtain child cur1 nxt1 where
    c1: "(if notContainer child then assign cur seg (JObj []) else Inr cur) = Inr cur1"
    and a2: "assign cur1 seg nxt1 = Inr cur'"
    by (auto split: sum.splits)
  from c1 assign_same[of cur seg "JObj []" cur1]
  have "notContainer cur1 = notContainer cur"
    by (cases "notContainer child") simp_all
  with assign_same[OF a2] show ?case by simp
qed

lemma setAtPath_loop_fresh:
  "parts \<noteq> [] \<Longrightarrow> ''__proto__'' \<notin> set parts \<Longrightarrow>
   setAtPath_loop (JObj []) parts v = Inr (fresh parts v)"
proof (induction parts)
  case Nil
  then show ?case by simp
next
  case (Cons k ks)
  from Cons.prems have k: "k \<noteq> ''__proto__''" by auto
  show ?case
  proof (cases ks)
    case Nil
    with k show ?thesis by simp
  next
    case (Cons k' ks')
    with Cons.IH Cons.prems k show ?thesis by simp
  qed
qed

text \<open>A write that returns leaves a prototype object as it is.\<close>

lemma assign_builtin: "assign (JBuiltin b) seg x = Inr cur' \<Longrightarrow> cur' = JBuiltin b"
  by (auto simp: setProto_def split: if_splits)

lemma builtin_set:
  assumes "setAtPath_loop (JBuiltin b) r v = Inr cur'"
  shows "cur' = JBuiltin b"
proof (cases r)
  case Nil
  with assms show ?thesis by simp
next
  case (Cons seg ks)
  show ?thesis
  proof (cases ks)
    case Nil
    with Cons assms assign_builtin[of b seg v cur'] show ?thesis by simp
  next
    case (Cons k2 ks')
    with \<open>r = seg # ks\<close> assms obtain child cur1 nxt1 where
      c1: "(if notContainer child then assign (JBuiltin b) seg (JObj []) else Inr (JBuiltin b)) = Inr cur1"
      and a2: "assign cur1 seg nxt1 = Inr cur'"
      by (auto split: sum.splits)
    from c1 assign_builtin[of b seg "JObj []" cur1] have "cur1 = JBuiltin b"
      by (cases "notContainer child") simp_all
    with a2 assign_builtin[of b seg nxt1 cur'] show ?thesis by simp
  qed
qed

text \<open>One step of the loop of \<^verbatim>\<open>setAtPath\<close>, at a segment that is not the last and that is
  an own property or not \<^verbatim>\<open>__proto__\<close>: what the segment read before, and what it reads
  afterwards.\<close>

lemma set_step:
  assumes s: "setAtPath_loop cur (seg # r) v = Inr cur'" and r: "r \<noteq> []"
    and seg: "seg \<noteq> ''__proto__'' \<or> own cur seg \<noteq> None"
  shows "\<exists>child u'. readProp cur seg = Inr child \<and> readProp cur' seg = Inr u'
           \<and> \<not> notContainer cur \<and> \<not> notContainer cur' \<and> \<not> notContainer u'
           \<and> setAtPath_loop (if notContainer child then JObj [] else child) r v = Inr u'"
proof -
  from r obtain k2 ks where parts: "r = k2 # ks" by (cases r) auto
  from s parts obtain child cur1 nxt nxt1 where
    child: "readProp cur seg = Inr child"
    and c1: "(if notContainer child then assign cur seg (JObj []) else Inr cur) = Inr cur1"
    and re: "readProp cur1 seg = Inr nxt"
    and rec: "setAtPath_loop nxt r v = Inr nxt1"
    and a2: "assign cur1 seg nxt1 = Inr cur'"
    by (auto split: sum.splits)
  have nxt: "nxt = (if notContainer child then JObj [] else child)"
  proof (cases "notContainer child")
    case True
    with c1 have "assign cur seg (JObj []) = Inr cur1" by simp
    from readProp_assign[OF this _ seg] re True show ?thesis by simp
  next
    case False
    with c1 re child show ?thesis by simp
  qed
  have seg1: "seg \<noteq> ''__proto__'' \<or> own cur1 seg \<noteq> None"
  proof (cases "notContainer child")
    case True
    with nxt re have "readProp cur1 seg = Inr (JObj [])" by simp
    from read_container[OF this] protoOf_kind[of cur1] show ?thesis by auto
  next
    case False
    with c1 seg show ?thesis by simp
  qed
  from assign_container[OF a2 seg1]
  have k1: "\<not> notContainer cur1" and k': "\<not> notContainer cur'" by simp_all
  have k: "\<not> notContainer cur"
  proof (cases "notContainer child")
    case True
    with c1 assign_container[of cur seg "JObj []" cur1] seg show ?thesis by simp
  next
    case False
    with c1 k1 show ?thesis by simp
  qed
  from nxt have "\<not> notContainer nxt" by simp
  with setAtPath_loop_same[OF rec] have n1: "\<not> notContainer nxt1" by simp
  from readProp_assign[OF a2 n1 seg1] have "readProp cur' seg = Inr nxt1" .
  with child rec nxt n1 k k' show ?thesis by simp
qed

text \<open>At a segment \<^verbatim>\<open>__proto__\<close> that is no own property, the loop goes on in a prototype
  object, and there it returns only when every segment before the last is \<^verbatim>\<open>__proto__\<close>.\<close>

lemma proto_step:
  assumes s: "setAtPath_loop cur (''__proto__'' # r) v = Inr cur'" and r: "r \<noteq> []"
    and o: "own cur ''__proto__'' = None"
  shows "\<exists>b c. setAtPath_loop (JBuiltin b) r v = Inr c"
proof -
  from r obtain k2 ks where parts: "r = k2 # ks" by (cases r) auto
  from s parts obtain child cur1 nxt nxt1 where
    child: "readProp cur ''__proto__'' = Inr child"
    and c1: "(if notContainer child then assign cur ''__proto__'' (JObj []) else Inr cur) = Inr cur1"
    and re: "readProp cur1 ''__proto__'' = Inr nxt"
    and rec: "setAtPath_loop nxt r v = Inr nxt1"
    by (auto split: sum.splits)
  from child o have p: "child = protoOf cur" by (cases cur) simp_all
  have "\<not> notContainer child"
  proof
    assume n: "notContainer child"
    with p protoOf_kind[of cur] have "protoOf cur = JNull" by auto
    then have "cur = JBuiltin ObjectPrototype" by (cases cur) (auto split: if_splits)
    with n c1 show False by (simp add: setProto_def)
  qed
  with c1 child re have "nxt = child" by simp
  with p protoOf_kind[of cur] \<open>\<not> notContainer child\<close> obtain b where "nxt = JBuiltin b" by auto
  with rec show ?thesis by blast
qed

lemma builtin_first:
  assumes s: "setAtPath_loop (JBuiltin b) (seg # r) v = Inr c" and r: "r \<noteq> []"
  shows "seg = ''__proto__''"
proof (rule ccontr)
  assume seg: "seg \<noteq> ''__proto__''"
  obtain child where child: "readProp (JBuiltin b) seg = Inr child" by simp
  have n: "notContainer child"
  proof (rule ccontr)
    assume "\<not> notContainer child"
    from read_container[OF child this] seg show False by simp
  qed
  from r obtain k2 ks where "r = k2 # ks" by (cases r) auto
  with s child n seg show False by (simp split: if_splits)
qed

lemma builtin_path:
  "setAtPath_loop (JBuiltin b) (q @ seg # r) v = Inr c \<Longrightarrow> r \<noteq> [] \<Longrightarrow> seg = ''__proto__''"
proof (induction q arbitrary: b c)
  case Nil
  then show ?case using builtin_first[of b seg r v c] by simp
next
  case (Cons s0 q)
  have rest: "q @ seg # r \<noteq> []" by simp
  from Cons.prems have s: "setAtPath_loop (JBuiltin b) (s0 # q @ seg # r) v = Inr c" by simp
  from builtin_first[OF s rest] have s0: "s0 = ''__proto__''" .
  have "own (JBuiltin b) ''__proto__'' = None" by simp
  from proto_step[OF s[unfolded s0] rest this] obtain b' c' where
    "setAtPath_loop (JBuiltin b') (q @ seg # r) v = Inr c'" by blast
  from Cons.IH[OF this Cons.prems(2)] show ?case .
qed

text \<open>Below a fresh object, the segments that are followed find nothing.\<close>

lemma fresh_get:
  assumes s: "setAtPath_loop (JObj []) (q @ seg # r) v = Inr c" and r: "r \<noteq> []"
    and seg: "seg \<noteq> ''__proto__''" and g: "getAtPath_loop (JObj []) (q @ [seg]) = Inr u"
  shows "notContainer u"
proof -
  obtain k ks where ks: "q @ [seg] = k # ks" by (cases "q @ [seg]") auto
  show ?thesis
  proof (cases "k = ''__proto__''")
    case False
    with g ks have "getAtPath_loop (inherited ObjectPrototype k) ks = Inr u" by simp
    with inherited_notContainer[of ObjectPrototype k] show ?thesis
      by (cases ks) auto
  next
    case True
    with ks seg obtain q' where q: "q = ''__proto__'' # q'" by (cases q) auto
    have rest: "q' @ seg # r \<noteq> []" by simp
    from s q have "setAtPath_loop (JObj []) (''__proto__'' # q' @ seg # r) v = Inr c" by simp
    from proto_step[OF this rest] obtain b c' where
      "setAtPath_loop (JBuiltin b) (q' @ seg # r) v = Inr c'" by auto
    from builtin_path[OF this r] seg show ?thesis by simp
  qed
qed

text \<open>The same along a path: the segments \<^verbatim>\<open>q\<close> and \<^verbatim>\<open>seg\<close> are followed, the
  segments \<^verbatim>\<open>r\<close> are still to come.\<close>

lemma set_intermediate:
  assumes "setAtPath_loop cur (q @ seg # r) v = Inr cur'" and "r \<noteq> []"
    and "seg \<noteq> ''__proto__''"
  shows "\<exists>u u'. getAtPath_loop cur (q @ [seg]) = Inr u \<and> getAtPath_loop cur' (q @ [seg]) = Inr u'
           \<and> \<not> notContainer u'
           \<and> setAtPath_loop (if notContainer u then JObj [] else u) r v = Inr u'"
  using assms
proof (induction q arbitrary: cur cur')
  case Nil
  from Nil.prems have s: "setAtPath_loop cur (seg # r) v = Inr cur'" by simp
  from set_step[OF s Nil.prems(2)] Nil.prems(3) obtain child u' where
    child: "readProp cur seg = Inr child" and new: "readProp cur' seg = Inr u'"
    and cont: "\<not> notContainer cur" "\<not> notContainer cur'" and c: "\<not> notContainer u'"
    and w: "setAtPath_loop (if notContainer child then JObj [] else child) r v = Inr u'"
    by blast
  have "getAtPath_loop cur ([] @ [seg]) = Inr child" using cont child by simp
  moreover have "getAtPath_loop cur' ([] @ [seg]) = Inr u'" using cont new by simp
  ultimately show ?case using c w by blast
next
  case (Cons s0 q)
  let ?rest = "q @ seg # r"
  from Cons.prems have s: "setAtPath_loop cur (s0 # ?rest) v = Inr cur'" by simp
  note seg = Cons.prems(3)
  have rest: "?rest \<noteq> []" by simp
  have own: "s0 \<noteq> ''__proto__'' \<or> own cur s0 \<noteq> None"
  proof (rule ccontr)
    assume "\<not> (s0 \<noteq> ''__proto__'' \<or> own cur s0 \<noteq> None)"
    then have s0: "s0 = ''__proto__''" and o: "own cur ''__proto__'' = None" by simp_all
    from proto_step[OF s[unfolded s0] rest o] obtain b c where
      "setAtPath_loop (JBuiltin b) ?rest v = Inr c" by blast
    from builtin_path[OF this Cons.prems(2)] seg show False by simp
  qed
  from set_step[OF s rest own] obtain child u1 where
    child: "readProp cur s0 = Inr child" and new: "readProp cur' s0 = Inr u1"
    and cont: "\<not> notContainer cur" "\<not> notContainer cur'"
    and rec: "setAtPath_loop (if notContainer child then JObj [] else child) ?rest v = Inr u1"
    by blast
  have old_get: "getAtPath_loop cur ((s0 # q) @ [seg]) = getAtPath_loop child (q @ [seg])"
    using cont child by simp
  have new_get: "getAtPath_loop cur' ((s0 # q) @ [seg]) = getAtPath_loop u1 (q @ [seg])"
    using cont new by simp
  from Cons.IH[OF rec Cons.prems(2) seg] obtain u u' where
    g: "getAtPath_loop (if notContainer child then JObj [] else child) (q @ [seg]) = Inr u"
    and g': "getAtPath_loop u1 (q @ [seg]) = Inr u'" and c: "\<not> notContainer u'"
    and w: "setAtPath_loop (if notContainer u then JObj [] else u) r v = Inr u'"
    by blast
  from new_get g' have after: "getAtPath_loop cur' ((s0 # q) @ [seg]) = Inr u'" by simp
  show ?case
  proof (cases "notContainer child")
    case False
    with g old_get have "getAtPath_loop cur ((s0 # q) @ [seg]) = Inr u" by simp
    with after c w show ?thesis by blast
  next
    case True
    have "getAtPath_loop child (q @ [seg]) = Inr JUndefined"
      using True getAtPath_loop_notContainer[of child "q @ [seg]"] by simp
    with old_get have before: "getAtPath_loop cur ((s0 # q) @ [seg]) = Inr JUndefined" by simp
    from True rec have f: "setAtPath_loop (JObj []) ?rest v = Inr u1" by simp
    from True g have "getAtPath_loop (JObj []) (q @ [seg]) = Inr u" by simp
    from fresh_get[OF f Cons.prems(2) seg this] have "notContainer u" .
    with w have "setAtPath_loop (if notContainer JUndefined then JObj [] else JUndefined) r v = Inr u'"
      by simp
    with before after c show ?thesis by blast
  qed
qed

subsection \<open>Deleting\<close>

lemma update_same: "map_of kvs k = Some v \<Longrightarrow> AList.update k v kvs = kvs"
  by (induction kvs) auto

text \<open>Storing back what was read changes nothing.\<close>

lemma assign_back:
  assumes "readProp cur seg = Inr child" and "\<not> notContainer cur" and "\<not> notContainer child"
  shows "assign cur seg child = Inr cur"
proof -
  from read_container[OF assms(1,3)] show ?thesis
  proof
    assume o: "own cur seg = Some child \<and> (\<forall>b. cur \<noteq> JBuiltin b)"
    show ?thesis
    proof (cases cur)
      case (JObj kvs)
      with o show ?thesis by (simp add: update_same)
    next
      case (JArr xs ps)
      with o assms(3) show ?thesis
        by (auto simp: update_same split: option.splits if_splits)
    qed (use o assms(2) in simp_all)
  next
    assume p: "seg = ''__proto__'' \<and> own cur seg = None \<and> child = protoOf cur"
    show ?thesis
    proof (cases cur)
      case (JArr xs ps)
      with p show ?thesis by (auto simp: setProto_def arrayIndex_def isDigit_def)
    qed (use p assms(2) in \<open>auto simp: setProto_def\<close>)
  qed
qed

text \<open>An own property of an object or an array that is an object or an array itself can
  be assigned to.\<close>

lemma assign_existing:
  assumes "own cur seg = Some child" and "\<not> notContainer child" and "\<not> notContainer cur"
    and "\<forall>b. cur \<noteq> JBuiltin b"
  shows "\<exists>cur'. assign cur seg x = Inr cur'"
proof (cases cur)
  case (JArr xs ps)
  with assms(1,2) show ?thesis by (auto split: option.splits if_splits)
qed (use assms in simp_all)

lemma delete_noop:
  "getAtPath_loop cur q = Inr u \<Longrightarrow>
   notContainer u \<or> (\<exists>kvs. u = JObj kvs \<and> k \<notin> fst ` set kvs) \<Longrightarrow>
   deleteAtPath_loop cur (q @ [k]) = Inr cur"
proof (induction q arbitrary: cur)
  case Nil
  then show ?case by (auto simp: delete_notin_dom)
next
  case (Cons seg q)
  obtain k2 ks where parts: "q @ [k] = k2 # ks" by (cases "q @ [k]") auto
  show ?case
  proof (cases "notContainer cur")
    case True
    with parts show ?thesis by simp
  next
    case False
    then obtain child where child: "readProp cur seg = Inr child"
      using readProp_container by blast
    with False Cons.prems(1) have g: "getAtPath_loop child q = Inr u" by simp
    show ?thesis
    proof (cases "notContainer child")
      case True
      with False child parts show ?thesis by simp
    next
      case nc: False
      from Cons.IH[OF g Cons.prems(2)] have "deleteAtPath_loop child (q @ [k]) = Inr child" .
      with False child nc parts assign_back[OF child False nc] show ?thesis by simp
    qed
  qed
qed

text \<open>The path to an object of the tree goes through own properties of objects and
  arrays; deleting a key of that object is storing the object without it.\<close>

lemma delete_is_store:
  "getAtPath_loop cur q = Inr (JObj kvs) \<Longrightarrow> q \<noteq> [] \<Longrightarrow>
   deleteAtPath_loop cur (q @ [k]) = setAtPath_loop cur q (JObj (AList.delete k kvs))
   \<and> (\<exists>cur'. setAtPath_loop cur q (JObj (AList.delete k kvs)) = Inr cur'
         \<and> getAtPath_loop cur' q = Inr (JObj (AList.delete k kvs)))"
proof (induction q arbitrary: cur)
  case Nil
  then show ?case by simp
next
  case (Cons seg q)
  let ?X = "JObj (AList.delete k kvs)"
  have cont: "\<not> notContainer cur"
    using Cons.prems(1) by (cases "notContainer cur") simp_all
  then obtain child where child: "readProp cur seg = Inr child"
    using readProp_container by blast
  with cont Cons.prems(1) have g: "getAtPath_loop child q = Inr (JObj kvs)" by simp
  have nc: "\<not> notContainer child"
  proof (cases q)
    case Nil
    with g show ?thesis by simp
  next
    case (Cons a list)
    with g show ?thesis by (cases "notContainer child") simp_all
  qed
  have nb: "\<forall>b. child \<noteq> JBuiltin b"
    using builtin_get g by fastforce
  with read_container[OF child nc] protoOf_kind[of cur] nc
  have o: "own cur seg = Some child" and cb: "\<forall>b. cur \<noteq> JBuiltin b" by auto
  have stored: "\<And>x cur'. assign cur seg x = Inr cur' \<Longrightarrow> \<not> notContainer x \<Longrightarrow>
      \<not> notContainer cur' \<and> readProp cur' seg = Inr x"
    using o readProp_assign[of cur seg] assign_container[of cur seg] by simp
  show ?case
  proof (cases q)
    case Nil
    with g have c: "child = JObj kvs" by simp
    from assign_existing[OF o nc cont cb, of "?X"] obtain cur' where a: "assign cur seg ?X = Inr cur'"
      by blast
    from stored[OF a] have "getAtPath_loop cur' [seg] = Inr ?X" by simp
    with a Nil c cont child show ?thesis by simp
  next
    case (Cons k2 ks)
    then have q: "q \<noteq> []" by simp
    from Cons.IH[OF g q] obtain nxt where
      eq: "deleteAtPath_loop child (q @ [k]) = Inr nxt"
      and st: "setAtPath_loop child q ?X = Inr nxt"
      and gt: "getAtPath_loop nxt q = Inr ?X"
      by auto
    have nn: "\<not> notContainer nxt"
      using gt q by (cases "notContainer nxt") (simp_all add: getAtPath_loop_notContainer)
    from assign_existing[OF o nc cont cb, of nxt] obtain cur' where a: "assign cur seg nxt = Inr cur'"
      by blast
    from stored[OF a nn] gt have "getAtPath_loop cur' (seg # q) = Inr ?X" by simp
    with a eq st Cons cont child nc show ?thesis by simp
  qed
qed

subsection \<open>What a write keeps\<close>

lemma assign_kind:
  "assign cur seg x = Inr cur' \<Longrightarrow> isArray cur' = isArray cur \<and> isPlainObject cur' = isPlainObject cur"
  by (cases cur) (auto simp: setProto_def split: option.splits if_splits sum.splits)

lemma setAtPath_loop_kind:
  "setAtPath_loop cur parts v = Inr cur' \<Longrightarrow>
     isArray cur' = isArray cur \<and> isPlainObject cur' = isPlainObject cur"
proof (induction cur parts v arbitrary: cur' rule: setAtPath_loop.induct)
  case (1 cur v)
  then show ?case using assign_kind[of cur "''undefined''" v cur'] by simp
next
  case (2 cur lastKey v)
  then show ?case using assign_kind[of cur lastKey v cur'] by simp
next
  case (3 cur seg k2 ks v)
  from "3.prems" obtain child cur1 nxt1 where
    c1: "(if notContainer child then assign cur seg (JObj []) else Inr cur) = Inr cur1"
    and a2: "assign cur1 seg nxt1 = Inr cur'"
    by (auto split: sum.splits)
  from c1 assign_kind[of cur seg "JObj []" cur1]
  have "isArray cur1 = isArray cur \<and> isPlainObject cur1 = isPlainObject cur"
    by (cases "notContainer child") simp_all
  with assign_kind[OF a2] show ?case by simp
qed

text \<open>A write into an object leaves every other key of the object as it reads.\<close>

lemma assign_object_shape: "assign (JObj kvs) seg x = Inr cur' \<Longrightarrow> \<exists>kvs'. cur' = JObj kvs'"
  by (auto simp: setProto_def split: if_splits)

lemma assign_object_others:
  "assign (JObj kvs) seg x = Inr cur' \<Longrightarrow> j \<noteq> seg \<Longrightarrow> readProp cur' j = readProp (JObj kvs) j"
  by (auto simp: setProto_def update_conv' split: if_splits option.splits)

lemma set_object_others:
  assumes "setAtPath_loop (JObj kvs) (seg # r) v = Inr cur'" and "j \<noteq> seg"
  shows "readProp cur' j = readProp (JObj kvs) j"
proof (cases r)
  case Nil
  with assms show ?thesis using assign_object_others[of kvs seg v cur' j] by simp
next
  case (Cons k2 ks)
  with assms(1) obtain child cur1 nxt1 where
    c1: "(if notContainer child then assign (JObj kvs) seg (JObj []) else Inr (JObj kvs)) = Inr cur1"
    and a2: "assign cur1 seg nxt1 = Inr cur'"
    by (auto split: sum.splits)
  have one: "readProp cur1 j = readProp (JObj kvs) j"
    using c1 assms(2) assign_object_others[of kvs seg "JObj []" cur1 j]
    by (cases "notContainer child") simp_all
  from c1 assign_object_shape[of kvs seg "JObj []" cur1] obtain kvs1 where "cur1 = JObj kvs1"
    by (cases "notContainer child") auto
  with a2 assms(2) assign_object_others[of kvs1 seg nxt1 cur' j] one show ?thesis by simp
qed

lemma split_dot_nonempty: "split_dot s \<noteq> []"
  by (induction s) simp_all

lemma split_dot_step:
  "split_dot (c # cs) =
     (case split_dot cs of
        [] \<Rightarrow> []
      | x # xs \<Rightarrow> if c = CHR ''.'' then [] # x # xs else (c # x) # xs)"
  using split_dot_nonempty[of cs] by (cases "split_dot cs") simp_all

lemma sample_splits:
  "split_dot ''a.b'' = [''a'', ''b'']" "split_dot ''n.z'' = [''n'', ''z'']"
  "split_dot ''n.z.w'' = [''n'', ''z'', ''w'']" "split_dot ''a.0'' = [''a'', ''0'']"
  "split_dot ''n.x.y'' = [''n'', ''x'', ''y'']" "split_dot ''a.c'' = [''a'', ''c'']"
  by simp_all

lemma arrayIndex_0: "arrayIndex ''0'' = Some 0"
  by (simp add: arrayIndex_def isDigit_def digitsValue_def)

lemma arrayIndex_letters [simp]:
  "arrayIndex ''a'' = None" "arrayIndex ''b'' = None" "arrayIndex ''c'' = None"
  "arrayIndex ''n'' = None" "arrayIndex ''x'' = None" "arrayIndex ''y'' = None"
  "arrayIndex ''z'' = None" "arrayIndex ''w'' = None"
  by (simp_all add: arrayIndex_def isDigit_def)




text \<open>
  C9, as amended. \<^verbatim>\<open>getAtPath\<close> never throws, and it returns \<^verbatim>\<open>undefined\<close> when a segment
  before the last resolves to nothing, to \<^verbatim>\<open>null\<close> or to a scalar (an array is descended
  into like an object). \<^verbatim>\<open>deleteAtPath\<close> leaves the tree as it is when the parent of the
  addressed entry is no object or array, or is an object without the last segment as a
  key. When the parent is an object, the tree afterwards is the tree with that object,
  less the key, stored where the parent was: the parent and its ancestors stay, also when
  the parent is empty now.
\<close>

theorem getAtPath_deleteAtPath:
  "(\<exists>v. getAtPath t dot = Inr v)
   \<and> (\<forall>q r u. split_dot dot = q @ r \<and> r \<noteq> [] \<and> getAtPath_loop t q = Inr u \<and> notContainer u
         \<longrightarrow> getAtPath t dot = Inr JUndefined)
   \<and> (\<forall>q k u. split_dot dot = q @ [k] \<and> getAtPath_loop t q = Inr u
         \<and> (notContainer u \<or> (\<exists>kvs. u = JObj kvs \<and> k \<notin> fst ` set kvs))
         \<longrightarrow> deleteAtPath t dot = Inr t)
   \<and> (\<forall>q k kvs. split_dot dot = q @ [k] \<and> getAtPath_loop t q = Inr (JObj kvs)
         \<longrightarrow> (\<exists>t'. deleteAtPath t dot = Inr t'
                \<and> getAtPath_loop t' q = Inr (JObj (AList.delete k kvs))
                \<and> (q \<noteq> [] \<longrightarrow> setAtPath_loop t q (JObj (AList.delete k kvs)) = Inr t')))"
proof (intro conjI allI impI)
  show "\<exists>v. getAtPath t dot = Inr v"
    by (simp add: getAtPath_def getAtPath_loop_total)
next
  fix q r u
  assume h: "split_dot dot = q @ r \<and> r \<noteq> [] \<and> getAtPath_loop t q = Inr u \<and> notContainer u"
  then have "getAtPath_loop t (q @ r) = getAtPath_loop u r"
    using getAtPath_loop_append by blast
  with h show "getAtPath t dot = Inr JUndefined"
    by (simp add: getAtPath_def getAtPath_loop_notContainer)
next
  fix q k u
  assume h: "split_dot dot = q @ [k] \<and> getAtPath_loop t q = Inr u
         \<and> (notContainer u \<or> (\<exists>kvs. u = JObj kvs \<and> k \<notin> fst ` set kvs))"
  then have "deleteAtPath_loop t (q @ [k]) = Inr t"
    using delete_noop by blast
  with h show "deleteAtPath t dot = Inr t" by (simp add: deleteAtPath_def)
next
  fix q k kvs
  assume h: "split_dot dot = q @ [k] \<and> getAtPath_loop t q = Inr (JObj kvs)"
  show "\<exists>t'. deleteAtPath t dot = Inr t'
          \<and> getAtPath_loop t' q = Inr (JObj (AList.delete k kvs))
          \<and> (q \<noteq> [] \<longrightarrow> setAtPath_loop t q (JObj (AList.delete k kvs)) = Inr t')"
  proof (cases "q = []")
    case True
    with h show ?thesis by (simp add: deleteAtPath_def)
  next
    case False
    from h have g: "getAtPath_loop t q = Inr (JObj kvs)" by simp
    from delete_is_store[OF g False, of k] obtain t' where
      d: "deleteAtPath_loop t (q @ [k]) = Inr t'"
      and s: "setAtPath_loop t q (JObj (AList.delete k kvs)) = Inr t'"
      and r: "getAtPath_loop t' q = Inr (JObj (AList.delete k kvs))"
      by auto
    from r d s h show ?thesis by (simp add: deleteAtPath_def)
  qed
qed

theorem getAtPath_deleteAtPath_witness:
  "getAtPath sampleTree ''n.z.w'' = Inr JUndefined
   \<and> deleteAtPath sampleTree ''n.z'' = Inr sampleTree
   \<and> deleteAtPath sampleTree ''a.b'' = Inr (JObj [(''a'', JObj []), (''n'', JNum 5)])
   \<and> getAtPath (JObj [(''a'', JObj []), (''n'', JNum 5)]) ''a'' = Inr (JObj [])"
proof -
  have n: "getAtPath_loop sampleTree [''n''] = Inr (JNum 5)"
    and a: "getAtPath_loop sampleTree [''a''] = Inr (JObj [(''b'', JStr ''x'')])"
    by (simp_all add: sampleTree_def)
  have "split_dot ''n.z.w'' = [''n''] @ [''z'', ''w'']" by simp
  with n getAtPath_deleteAtPath[of sampleTree "''n.z.w''"]
  have 1: "getAtPath sampleTree ''n.z.w'' = Inr JUndefined"
    by (metis list.distinct(1) notContainer_simps(4))
  have "split_dot ''n.z'' = [''n''] @ [''z'']" by simp
  with n getAtPath_deleteAtPath[of sampleTree "''n.z''"]
  have 2: "deleteAtPath sampleTree ''n.z'' = Inr sampleTree"
    by (metis notContainer_simps(4))
  have "split_dot ''a.b'' = [''a''] @ [''b'']" by simp
  with a getAtPath_deleteAtPath[of sampleTree "''a.b''"]
  obtain t' where d: "deleteAtPath sampleTree ''a.b'' = Inr t'"
    and s: "setAtPath_loop sampleTree [''a''] (JObj (AList.delete ''b'' [(''b'', JStr ''x'')])) = Inr t'"
    by (metis list.distinct(1))
  from s have "t' = JObj [(''a'', JObj []), (''n'', JNum 5)]"
    by (simp add: sampleTree_def)
  with d have 3: "deleteAtPath sampleTree ''a.b'' = Inr (JObj [(''a'', JObj []), (''n'', JNum 5)])"
    by simp
  have 4: "getAtPath (JObj [(''a'', JObj []), (''n'', JNum 5)]) ''a'' = Inr (JObj [])"
    by (simp add: getAtPath_def)
  from 1 2 3 4 show ?thesis by simp
qed

theorem getAtPath_array_counterexample:
  "getAtPath sampleList ''a'' = Inr (JArr [JNum 7] [])
   \<and> shape (JArr [JNum 7] []) = ''array''
   \<and> getAtPath sampleList ''a.0'' = Inr (JNum 7)
   \<and> JNum 7 \<noteq> JUndefined"
  by (simp add: sampleList_def getAtPath_def shape_def arrayIndex_0)

section \<open>Flattening and writing back\<close>

lemma set_ordered [simp]: "set (ordered kvs) = set kvs"
  by (auto simp: ordered_def)

lemma distinct_ordered: "distinct kvs \<Longrightarrow> distinct (ordered kvs)"
  by (auto simp: ordered_def)

lemma distinct_keys_ordered [simp]:
  "distinct (map fst kvs) \<Longrightarrow> distinct (map fst (ordered kvs))"
  by (simp add: distinct_map distinct_ordered)

lemma insort_key_map:
  "insort_key g (h x) (map h xs) = map h (insort_key (\<lambda>y. g (h y)) x xs)"
  by (induction xs) simp_all

lemma sort_key_map: "sort_key g (map h xs) = map h (sort_key (\<lambda>y. g (h y)) xs)"
  by (induction xs) (simp_all add: insort_key_map)

lemma ordered_map: "ordered (map (\<lambda>e. (fst e, f e)) kvs) = map (\<lambda>e. (fst e, f e)) (ordered kvs)"
  by (simp add: ordered_def sort_key_map filter_map comp_def)

lemma leaves_object: "leaves (JObj kvs) = concat (map under (rev (ordered kvs)))"
  by (simp add: ordered_map under_def[abs_def] rev_map comp_def)

lemma mirror_object: "mirror (JObj kvs) = JObj (map mirrored (rev (ordered kvs)))"
  by (simp add: ordered_map mirrored_def[abs_def] rev_map)

lemma emit_leaf: "\<not> isPlainObject v \<Longrightarrow> emit (v, p) = [(p, v)]"
  by (cases v) (simp_all add: emit_def pathOf_def)

lemma emit_object:
  "isPlainObject v \<Longrightarrow>
   emit (v, p) = concat (map emit (rev (map (\<lambda>(k, c). (c, nextPath p k)) (entries v))))"
proof (cases v)
  case (JObj kvs)
  have "emit (JObj kvs, p)
      = concat (map emit (map (\<lambda>(k, c). (c, nextPath p k)) (rev (ordered kvs))))"
    by (simp add: emit_def leaves_object under_def pathOf_def map_concat comp_def case_prod_beta
        del: leaves.simps)
  with JObj show ?thesis by (simp add: rev_map)
next
  case (JBuiltin b)
  then show ?thesis by (simp add: emit_def)
qed simp_all

lemma flatten_loop_emit:
  "flatten_loop stack out = fold setEntry (concat (map emit stack)) out"
proof (induction stack out rule: flatten_loop.induct)
  case (1 out)
  show ?case by simp
next
  case (2 val p stack out)
  show ?case
  proof (cases "isPlainObject val")
    case True
    with 2 show ?thesis by (simp add: push_entries_def emit_object)
  next
    case False
    with 2 show ?thesis by (simp add: emit_leaf setEntry_def)
  qed
qed

lemma fold_setEntry_fresh:
  "distinct (map fst (out @ es)) \<Longrightarrow> fold setEntry es out = out @ es"
proof (induction es arbitrary: out)
  case Nil
  show ?case by simp
next
  case (Cons e es)
  from Cons.prems have "fst e \<notin> fst ` set out" by auto
  then have "setEntry e out = out @ [e]"
    by (induction out) (auto simp: setEntry_def)
  with Cons.IH[of "out @ [e]"] Cons.prems show ?case by simp
qed

lemma flatten_leaves:
  "distinct (map (\<lambda>l. pathOf [] (fst l)) (leaves T)) \<Longrightarrow>
   flatten T = map (\<lambda>l. (pathOf [] (fst l), snd l)) (leaves T)"
  using fold_setEntry_fresh[of "[]" "emit (T, [])"]
  by (simp add: flatten_def flatten_from_def flatten_loop_emit emit_def comp_def)

lemma leaves_leaf: "\<not> isPlainObject v \<Longrightarrow> leaves v = [([], v)]"
  by (cases v) simp_all

lemma pathOf_nonempty:
  "p \<noteq> [] \<Longrightarrow> pathOf p segs = p @ concat (map ((#) CHR ''.'') segs)"
proof (induction segs arbitrary: p)
  case Nil
  show ?case by (simp add: pathOf_def)
next
  case (Cons k segs)
  have "pathOf p (k # segs) = pathOf (p @ ''.'' @ k) segs"
    using Cons.prems by (simp add: pathOf_def nextPath_def)
  with Cons.IH[of "p @ ''.'' @ k"] show ?case by simp
qed

lemma split_dot_dotless: "dotless k \<Longrightarrow> split_dot k = [k]"
  by (induction k) (auto simp: dotless_def)

lemma split_dot_join:
  "dotless k \<Longrightarrow> list_all dotless segs \<Longrightarrow>
   split_dot (k @ concat (map ((#) CHR ''.'') segs)) = k # segs"
proof (induction segs arbitrary: k)
  case Nil
  then show ?case by (simp add: split_dot_dotless)
next
  case (Cons s ss)
  from Cons.prems(2) have s: "dotless s" and ss: "list_all dotless ss" by simp_all
  note step = Cons.IH[OF s ss]
  from Cons.prems(1) show ?case
  proof (induction k)
    case Nil
    from step show ?case by simp
  next
    case (Cons c k')
    then have "dotless k'" and "c \<noteq> CHR ''.''" by (auto simp: dotless_def)
    with Cons.IH show ?case by simp
  qed
qed

lemma split_dot_pathOf: "goodSegs segs \<Longrightarrow> split_dot (pathOf [] segs) = segs"
proof (cases segs)
  case Nil
  assume "goodSegs segs"
  with Nil show ?thesis by (simp add: goodSegs_def)
next
  case (Cons k rest)
  assume g: "goodSegs segs"
  show ?thesis
  proof (cases "k = []")
    case True
    with g Cons have "rest = []" by (simp add: goodSegs_def)
    with True Cons show ?thesis by (simp add: pathOf_def nextPath_def)
  next
    case False
    then have "pathOf [] (k # rest) = k @ concat (map ((#) CHR ''.'') rest)"
      using pathOf_nonempty[of k rest] by (simp add: pathOf_def nextPath_def)
    with g Cons show ?thesis by (simp add: goodSegs_def split_dot_join)
  qed
qed

lemma leafy_leaves_nonempty: "leafy v \<Longrightarrow> leaves v \<noteq> []"
proof (induction v rule: leafy.induct)
  case (1 kvs)
  then obtain e where e: "e \<in> set kvs" by (cases kvs) auto
  with 1 have "leaves (snd e) \<noteq> []" by simp
  with e have "under e \<noteq> []" by (simp add: under_def)
  with e show ?case unfolding leaves_object by auto
qed simp_all

lemma leafy_leaves_dotless: "leafy v \<Longrightarrow> l \<in> set (leaves v) \<Longrightarrow> list_all dotless (fst l)"
proof (induction v arbitrary: l rule: leafy.induct)
  case (1 kvs)
  from "1.prems"(2) obtain e l' where e: "e \<in> set kvs" and l': "l' \<in> set (leaves (snd e))"
    and l: "l = (fst e # fst l', snd l')"
    unfolding leaves_object by (auto simp: under_def)
  from "1.prems"(1) e have "dotless (fst e)" "leafy (snd e)" by (auto simp: plainKey_def)
  with "1.IH"[OF e _ l'] l show ?case by simp
qed simp_all

lemma under_distinct:
  "distinct (map fst es) \<Longrightarrow> \<forall>e \<in> set es. distinct (map fst (leaves (snd e))) \<Longrightarrow>
   distinct (map fst (concat (map under es)))"
proof (induction es)
  case Nil
  show ?case by simp
next
  case (Cons e es)
  have heads: "\<And>x. x \<in> set (concat (map under es)) \<Longrightarrow> hd (fst x) \<in> fst ` set es"
    by (auto simp: under_def intro: rev_image_eqI)
  have own: "\<And>x. x \<in> set (under e) \<Longrightarrow> hd (fst x) = fst e"
    by (auto simp: under_def)
  have "distinct (map fst (under e))"
    using Cons.prems(2) by (simp add: under_def comp_def distinct_map inj_on_def)
  moreover have "distinct (map fst (concat (map under es)))"
    using Cons by simp
  moreover have "fst ` set (under e) \<inter> fst ` set (concat (map under es)) = {}"
  proof (rule ccontr)
    assume "\<not> ?thesis"
    then obtain p where p1: "p \<in> fst ` set (under e)"
      and p2: "p \<in> fst ` set (concat (map under es))"
      by blast
    from p1 obtain x where x: "x \<in> set (under e)" and px: "p = fst x" by (rule imageE)
    from p2 obtain y where y: "y \<in> set (concat (map under es))" and py: "p = fst y"
      by (rule imageE)
    from px py have xy: "fst x = fst y" by simp
    from own[OF x] heads[OF y] xy have "fst e \<in> fst ` set es" by simp
    with Cons.prems(1) show False by simp
  qed
  ultimately show ?case by simp
qed

lemma leafy_distinct: "leafy v \<Longrightarrow> distinct (map fst (leaves v))"
proof (induction v rule: leafy.induct)
  case (1 kvs)
  then have "distinct (map fst (rev (ordered kvs)))"
    by (simp add: distinct_rev rev_map[symmetric] del: rev_map)
  moreover from 1 have "\<forall>e \<in> set (rev (ordered kvs)). distinct (map fst (leaves (snd e)))" by simp
  ultimately show ?case unfolding leaves_object by (rule under_distinct)
qed simp_all

lemma putAll_Nil [simp]: "putAll [] acc = acc"
  by (simp add: putAll_def)

lemma putAll_Cons:
  "putAll (l # es) (Inr t) = putAll es (setAtPath_loop t (fst l) (snd l))"
  by (simp add: putAll_def storeSegs_def)

lemma putAll_Inl [simp]: "putAll es (Inl e) = Inl e"
  by (induction es) (simp_all add: putAll_def storeSegs_def)

lemma putAll_append: "putAll (xs @ ys) acc = putAll ys (putAll xs acc)"
  by (simp add: putAll_def)

lemma update_new: "k \<notin> fst ` set a \<Longrightarrow> AList.update k v a = a @ [(k, v)]"
  by (induction a) auto

lemma update_last: "k \<notin> fst ` set a \<Longrightarrow> AList.update k v (a @ [(k, w)]) = a @ [(k, v)]"
  by (induction a) auto

lemma map_of_last: "k \<notin> fst ` set a \<Longrightarrow> map_of (a @ [(k, w)]) k = Some w"
  by (induction a) auto

lemma map_of_absent: "k \<notin> fst ` set a \<Longrightarrow> map_of a k = None"
  by (simp add: map_of_eq_None_iff)

lemma readProp_last: "k \<notin> fst ` set a \<Longrightarrow> readProp (JObj (a @ [(k, w)])) k = Inr w"
  using map_of_last[of k a w] by (simp del: map_of_append)

lemma readProp_absent:
  "k \<notin> fst ` set a \<Longrightarrow> k \<noteq> ''__proto__'' \<Longrightarrow>
   readProp (JObj a) k = Inr (inherited ObjectPrototype k)"
  by (simp add: map_of_absent)

lemma assign_last:
  "k \<notin> fst ` set a \<Longrightarrow> assign (JObj (a @ [(k, w)])) k v = Inr (JObj (a @ [(k, v)]))"
  by (simp add: update_last map_of_last)

lemma assign_new:
  "k \<notin> fst ` set a \<Longrightarrow> k \<noteq> ''__proto__'' \<Longrightarrow> assign (JObj a) k v = Inr (JObj (a @ [(k, v)]))"
  by (simp add: update_new)

lemma set_into_child:
  assumes "k \<notin> fst ` set a" and "parts \<noteq> []"
  shows "setAtPath_loop (JObj (a @ [(k, JObj b)])) (k # parts) x =
     (case setAtPath_loop (JObj b) parts x of
        Inl e \<Rightarrow> Inl e
      | Inr n \<Rightarrow> Inr (JObj (a @ [(k, n)])))"
proof -
  from assms(2) obtain k2 ks where parts: "parts = k2 # ks" by (cases parts) auto
  show ?thesis
    unfolding parts
    by (simp add: readProp_last[OF assms(1)] assign_last[OF assms(1)]
        del: readProp.simps assign.simps split: sum.splits)
qed

lemma set_new_child:
  assumes "k \<notin> fst ` set a" and "parts \<noteq> []" and "k \<noteq> ''__proto__''"
  shows "setAtPath_loop (JObj a) (k # parts) x =
     (case setAtPath_loop (JObj []) parts x of
        Inl e \<Rightarrow> Inl e
      | Inr n \<Rightarrow> Inr (JObj (a @ [(k, n)])))"
proof -
  from assms(2) obtain k2 ks where parts: "parts = k2 # ks" by (cases parts) auto
  show ?thesis
    unfolding parts
    by (simp add: readProp_absent[OF assms(1,3)] assign_new[OF assms(1,3)] assign_last[OF assms(1)]
        readProp_last[OF assms(1)] del: readProp.simps assign.simps split: sum.splits)
qed

lemma set_object_result:
  assumes "setAtPath_loop (JObj b) parts x = Inr n"
  shows "\<exists>b'. n = JObj b'"
proof (cases parts)
  case Nil
  with assms assign_object_shape[of b "''undefined''" x n] show ?thesis by simp
next
  case (Cons k ks)
  show ?thesis
  proof (cases ks)
    case Nil
    with assms Cons assign_object_shape[of b k x n] show ?thesis by simp
  next
    case ks: (Cons k2 ks2)
    with assms Cons obtain child cur1 nxt1 where
      c1: "(if notContainer child then assign (JObj b) k (JObj []) else Inr (JObj b)) = Inr cur1"
      and a2: "assign cur1 k nxt1 = Inr n"
      by (auto split: sum.splits)
    from c1 assign_object_shape[of b k "JObj []" cur1] obtain b1 where "cur1 = JObj b1"
      by (cases "notContainer child") auto
    with a2 assign_object_shape[of b1 k nxt1 n] show ?thesis by simp
  qed
qed

lemma putAll_object_result:
  "putAll es (Inr (JObj b)) = Inr n \<Longrightarrow> \<exists>b'. n = JObj b'"
proof (induction es arbitrary: b)
  case Nil
  then show ?case by auto
next
  case (Cons l es)
  show ?case
  proof (cases "setAtPath_loop (JObj b) (fst l) (snd l)")
    case (Inl e)
    with Cons.prems show ?thesis by (simp add: putAll_Cons)
  next
    case (Inr m)
    then obtain b1 where "m = JObj b1" using set_object_result by blast
    with Cons.prems Inr Cons.IH[of b1] show ?thesis by (simp add: putAll_Cons)
  qed
qed

lemma putAll_into_child:
  assumes "k \<notin> fst ` set a" and "\<forall>l \<in> set es. fst l \<noteq> []"
    and "putAll es (Inr (JObj b)) = Inr (JObj b')"
  shows "putAll (map (\<lambda>l. (k # fst l, snd l)) es) (Inr (JObj (a @ [(k, JObj b)])))
           = Inr (JObj (a @ [(k, JObj b')]))"
  using assms(2,3)
proof (induction es arbitrary: b)
  case Nil
  then show ?case by simp
next
  case (Cons l es)
  show ?case
  proof (cases "setAtPath_loop (JObj b) (fst l) (snd l)")
    case (Inl e)
    with Cons.prems(2) show ?thesis by (simp add: putAll_Cons)
  next
    case (Inr m)
    then obtain b1 where m: "m = JObj b1" using set_object_result by blast
    from Cons.prems(1) have ne: "fst l \<noteq> []" by simp
    from Cons.prems(2) Inr m have rest: "putAll es (Inr (JObj b1)) = Inr (JObj b')"
      by (simp add: putAll_Cons)
    from Cons.prems(1) have "\<forall>l \<in> set es. fst l \<noteq> []" by simp
    from Cons.IH[OF this rest] set_into_child[OF assms(1) ne, of b "snd l"] Inr m
    show ?thesis by (simp add: putAll_Cons)
  qed
qed

lemma putAll_new_child:
  assumes "k \<notin> fst ` set a" and "\<forall>l \<in> set es. fst l \<noteq> []" and "es \<noteq> []"
    and "putAll es (Inr (JObj [])) = Inr (JObj b')" and "k \<noteq> ''__proto__''"
  shows "putAll (map (\<lambda>l. (k # fst l, snd l)) es) (Inr (JObj a)) = Inr (JObj (a @ [(k, JObj b')]))"
proof -
  from assms(3) obtain l rest where es: "es = l # rest" by (cases es) auto
  from assms(2) es have ne: "fst l \<noteq> []" and nes: "\<forall>l \<in> set rest. fst l \<noteq> []" by simp_all
  show ?thesis
  proof (cases "setAtPath_loop (JObj []) (fst l) (snd l)")
    case (Inl e)
    with assms(4) es show ?thesis by (simp add: putAll_Cons)
  next
    case (Inr m)
    then obtain b1 where m: "m = JObj b1" using set_object_result by blast
    from assms(4) es Inr m have rest: "putAll rest (Inr (JObj b1)) = Inr (JObj b')"
      by (simp add: putAll_Cons)
    from putAll_into_child[OF assms(1) nes rest] set_new_child[OF assms(1) ne assms(5), of "snd l"]
      Inr m es
    show ?thesis by (simp add: putAll_Cons)
  qed
qed

lemma putAll_entries:
  assumes "\<forall>e \<in> set ys. \<forall>a. fst e \<notin> fst ` set a \<longrightarrow>
             putAll (under e) (Inr (JObj a)) = Inr (JObj (a @ [mirrored e]))"
    and "distinct (map fst ys)" and "fst ` set b \<inter> fst ` set ys = {}"
  shows "putAll (concat (map under ys)) (Inr (JObj b)) = Inr (JObj (b @ map mirrored ys))"
  using assms
proof (induction ys arbitrary: b)
  case Nil
  show ?case by simp
next
  case (Cons e ys)
  from Cons.prems(3) have "fst e \<notin> fst ` set b" by auto
  with Cons.prems(1) have step: "putAll (under e) (Inr (JObj b)) = Inr (JObj (b @ [mirrored e]))"
    by simp
  have "fst ` set (b @ [mirrored e]) \<inter> fst ` set ys = {}"
    using Cons.prems(2,3) by (auto simp: mirrored_def)
  with Cons.IH[of "b @ [mirrored e]"] Cons.prems(1,2)
  have "putAll (concat (map under ys)) (Inr (JObj (b @ [mirrored e])))
          = Inr (JObj ((b @ [mirrored e]) @ map mirrored ys))"
    by simp
  with step show ?case by (simp add: putAll_append)
qed

lemma leaves_object_segs: "l \<in> set (leaves (JObj kvs)) \<Longrightarrow> fst l \<noteq> []"
  unfolding leaves_object by (auto simp: under_def)

lemma putAll_under:
  "leafy v \<Longrightarrow> k \<notin> fst ` set a \<Longrightarrow> k \<noteq> ''__proto__'' \<Longrightarrow>
   putAll (under (k, v)) (Inr (JObj a)) = Inr (JObj (a @ [mirrored (k, v)]))"
proof (induction v arbitrary: k a rule: leafy.induct)
  case (1 kvs)
  have ih: "\<forall>e \<in> set (rev (ordered kvs)). \<forall>a. fst e \<notin> fst ` set a \<longrightarrow>
             putAll (under e) (Inr (JObj a)) = Inr (JObj (a @ [mirrored e]))"
  proof (intro ballI allI impI)
    fix e and a :: "(string \<times> json) list"
    assume e: "e \<in> set (rev (ordered kvs))" and a: "fst e \<notin> fst ` set a"
    from e have e': "e \<in> set kvs" by simp
    from e' "1.prems"(1) have "leafy (snd e)" and "fst e \<noteq> ''__proto__''"
      by (auto simp: plainKey_def)
    from "1.IH"[OF e' this(1) a this(2)]
    show "putAll (under e) (Inr (JObj a)) = Inr (JObj (a @ [mirrored e]))"
      by simp
  qed
  from "1.prems"(1) have d: "distinct (map fst (rev (ordered kvs)))"
    by (simp add: distinct_rev rev_map[symmetric] del: rev_map)
  from putAll_entries[OF ih d, of "[]"]
  have inner: "putAll (leaves (JObj kvs)) (Inr (JObj []))
                 = Inr (JObj (map mirrored (rev (ordered kvs))))"
    unfolding leaves_object by simp
  have segs: "\<forall>l \<in> set (leaves (JObj kvs)). fst l \<noteq> []"
    using leaves_object_segs by blast
  from leafy_leaves_nonempty[OF "1.prems"(1)] have ne: "leaves (JObj kvs) \<noteq> []" .
  from putAll_new_child[OF "1.prems"(2) segs ne inner "1.prems"(3)]
  show ?case by (simp add: under_def mirror_object mirrored_def del: mirror.simps leaves.simps)
qed (simp_all add: under_def mirrored_def putAll_Cons update_new)

lemma putAll_root:
  assumes "plainTree T"
  shows "putAll (leaves T) (Inr (JObj [])) = Inr (mirror T)"
proof -
  from assms obtain kvs where T: "T = JObj kvs" by (cases T) (simp_all add: plainTree_def)
  have ih: "\<forall>e \<in> set (rev (ordered kvs)). \<forall>a. fst e \<notin> fst ` set a \<longrightarrow>
             putAll (under e) (Inr (JObj a)) = Inr (JObj (a @ [mirrored e]))"
  proof (intro ballI allI impI)
    fix e and a :: "(string \<times> json) list"
    assume e: "e \<in> set (rev (ordered kvs))" and a: "fst e \<notin> fst ` set a"
    from e assms T have "leafy (snd e)" and "fst e \<noteq> ''__proto__''"
      by (auto simp: plainTree_def plainKey_def)
    from putAll_under[OF this(1) a this(2)]
    show "putAll (under e) (Inr (JObj a)) = Inr (JObj (a @ [mirrored e]))"
      by simp
  qed
  from assms T have d: "distinct (map fst (rev (ordered kvs)))"
    by (simp add: plainTree_def distinct_rev rev_map[symmetric] del: rev_map)
  from putAll_entries[OF ih d, of "[]"] T show ?thesis
    by (simp add: leaves_object mirror_object del: mirror.simps leaves.simps)
qed

lemma plainTree_goodSegs:
  assumes "plainTree T" and "l \<in> set (leaves T)"
  shows "goodSegs (fst l)"
proof -
  from assms(1) obtain kvs where T: "T = JObj kvs" by (cases T) (simp_all add: plainTree_def)
  from assms(2) T obtain e l' where e: "e \<in> set kvs" and l': "l' \<in> set (leaves (snd e))"
    and l: "l = (fst e # fst l', snd l')"
    unfolding leaves_object by (auto simp: under_def)
  from assms(1) T e have k: "dotless (fst e)" and lf: "leafy (snd e)"
    and em: "fst e = [] \<longrightarrow> \<not> isPlainObject (snd e)"
    by (auto simp: plainTree_def plainKey_def)
  from leafy_leaves_dotless[OF lf l'] have d: "list_all dotless (fst l')" .
  have "fst e = [] \<longrightarrow> fst l' = []"
  proof
    assume "fst e = []"
    with em have "\<not> isPlainObject (snd e)" by simp
    from leaves_leaf[OF this] l' show "fst l' = []" by simp
  qed
  with k d l show ?thesis by (simp add: goodSegs_def)
qed

lemma plainTree_distinct:
  assumes "plainTree T"
  shows "distinct (map fst (leaves T))"
proof -
  from assms obtain kvs where T: "T = JObj kvs" by (cases T) (simp_all add: plainTree_def)
  from assms T have "distinct (map fst (rev (ordered kvs)))"
    by (simp add: plainTree_def distinct_rev rev_map[symmetric] del: rev_map)
  moreover from assms T have "\<forall>e \<in> set (rev (ordered kvs)). distinct (map fst (leaves (snd e)))"
    by (simp add: plainTree_def leafy_distinct)
  ultimately show ?thesis unfolding T leaves_object by (rule under_distinct)
qed

lemma plainTree_paths_distinct:
  assumes "plainTree T"
  shows "distinct (map (\<lambda>l. pathOf [] (fst l)) (leaves T))"
proof -
  have "inj_on (pathOf []) (set (map fst (leaves T)))"
  proof (rule inj_on_inverseI[where g = split_dot])
    fix s
    assume "s \<in> set (map fst (leaves T))"
    then obtain l where "l \<in> set (leaves T)" and "s = fst l" by auto
    with plainTree_goodSegs[OF assms] show "split_dot (pathOf [] s) = s"
      by (simp add: split_dot_pathOf)
  qed
  with plainTree_distinct[OF assms]
  have "distinct (map (pathOf []) (map fst (leaves T)))"
    unfolding distinct_map[of "pathOf []" "map fst (leaves T)"] by blast
  then show ?thesis by (simp add: comp_def)
qed

lemma store_segs:
  "goodSegs (fst l) \<Longrightarrow> store (pathOf [] (fst l), snd l) acc = storeSegs l acc"
  by (cases acc) (simp_all add: store_def storeSegs_def setAtPath_def split_dot_pathOf)

lemma rebuild_putAll:
  "\<forall>l \<in> set es. goodSegs (fst l) \<Longrightarrow>
   fold store (map (\<lambda>l. (pathOf [] (fst l), snd l)) es) acc = putAll es acc"
proof (induction es arbitrary: acc)
  case Nil
  show ?case by simp
next
  case (Cons l es)
  then have "fold store (map (\<lambda>l. (pathOf [] (fst l), snd l)) es) (storeSegs l acc)
               = putAll es (storeSegs l acc)"
    by simp
  with Cons.prems show ?case by (simp add: store_segs putAll_def)
qed

lemma rebuild_flatten:
  assumes "plainTree T"
  shows "rebuild (flatten T) = Inr (mirror T)"
proof -
  from plainTree_goodSegs[OF assms] have g: "\<forall>l \<in> set (leaves T). goodSegs (fst l)" by blast
  from flatten_leaves[OF plainTree_paths_distinct[OF assms]] rebuild_putAll[OF g]
  have "rebuild (flatten T) = putAll (leaves T) (Inr (JObj []))"
    by (simp add: rebuild_def)
  with putAll_root[OF assms] show ?thesis by simp
qed

lemma mirror_entries_same:
  assumes "distinct (map fst kvs)" and "\<forall>e \<in> set kvs. sameTree (mirror (snd e)) (snd e)"
  shows "sameTree (mirror (JObj kvs)) (JObj kvs)"
proof -
  have "\<forall>x \<in> set (map mirrored (rev (ordered kvs))). \<forall>y \<in> set kvs.
          fst x = fst y \<longrightarrow> sameTree (snd x) (snd y)"
  proof (intro ballI impI)
    fix x y
    assume x: "x \<in> set (map mirrored (rev (ordered kvs)))" and y: "y \<in> set kvs"
      and xy: "fst x = fst y"
    from x obtain e where e: "e \<in> set kvs" and xe: "x = mirrored e" by auto
    from xe xy have "fst e = fst y" by (simp add: mirrored_def)
    with assms(1) e y have "e = y" by (meson distinct_map inj_onD)
    with assms(2) y xe show "sameTree (snd x) (snd y)" by (simp add: mirrored_def)
  qed
  moreover have "set (map fst (map mirrored (rev (ordered kvs)))) = set (map fst kvs)"
    by (auto simp: mirrored_def image_iff)
  ultimately show ?thesis by (simp add: mirror_object del: mirror.simps)
qed

lemma leafy_mirror_same: "leafy v \<Longrightarrow> sameTree (mirror v) v"
proof (induction v rule: leafy.induct)
  case (1 kvs)
  then show ?case by (intro mirror_entries_same) auto
qed simp_all

lemma plainTree_mirror_same:
  assumes "plainTree T"
  shows "sameTree (mirror T) T"
proof -
  from assms obtain kvs where T: "T = JObj kvs" by (cases T) (simp_all add: plainTree_def)
  from assms T show ?thesis
    unfolding T by (intro mirror_entries_same) (auto simp: plainTree_def leafy_mirror_same)
qed

text \<open>
  C4, as amended. For every tree \<open>T\<close> that is an object in which no key has a dot or is
  \<^verbatim>\<open>__proto__\<close>, no object below the root is empty, no key is twice in an object and the
  empty key of the root is not bound to an object: writing every entry of \<open>flatten T\<close>
  with \<^verbatim>\<open>setAtPath\<close> into an empty tree succeeds and gives a tree that is structurally
  equal to \<open>T\<close>, the same keys with the same values in every object.
\<close>

theorem flatten_setAtPath_roundtrip:
  assumes "plainTree T"
  shows "\<exists>T'. rebuild (flatten T) = Inr T' \<and> sameTree T' T"
  using rebuild_flatten[OF assms] plainTree_mirror_same[OF assms] by simp

theorem flatten_setAtPath_roundtrip_witness:
  "plainTree sampleNested
   \<and> (\<exists>T'. rebuild (flatten sampleNested) = Inr T' \<and> sameTree T' sampleNested)"
proof -
  have p: "plainTree sampleNested"
    by (simp add: sampleNested_def plainTree_def plainKey_def dotless_def)
  from flatten_setAtPath_roundtrip[OF p] p show ?thesis by simp
qed

theorem flatten_setAtPath_counterexample:
  "rebuild (flatten (JObj [(''a.b'', JNum 1)])) = Inr (JObj [(''a'', JObj [(''b'', JNum 1)])])
   \<and> \<not> sameTree (JObj [(''a'', JObj [(''b'', JNum 1)])]) (JObj [(''a.b'', JNum 1)])
   \<and> rebuild (flatten (JObj [(''a'', JObj [])])) = Inr (JObj [])
   \<and> \<not> sameTree (JObj []) (JObj [(''a'', JObj [])])
   \<and> rebuild (flatten (JObj [([], JObj [(''b'', JNum 1)])])) = Inr (JObj [(''b'', JNum 1)])
   \<and> \<not> sameTree (JObj [(''b'', JNum 1)]) (JObj [([], JObj [(''b'', JNum 1)])])
   \<and> rebuild (flatten (JObj [(''__proto__'', JStr ''x'')])) = Inr (JObj [])
   \<and> \<not> sameTree (JObj []) (JObj [(''__proto__'', JStr ''x'')])"
  by (simp add: rebuild_def store_def flatten_def flatten_from_def push_entries_def nextPath_def
      setAtPath_def ordered_def arrayIndex_def isDigit_def inherited_def ownOf_def setProto_def)

section \<open>Properties of the translation adapter\<close>

lemma count_update:
  "i < length xs \<Longrightarrow>
   int (length (filter P (xs[i := y])))
     = int (length (filter P xs)) - (if P (xs ! i) then 1 else 0) + (if P y then 1 else 0)"
proof (induction xs arbitrary: i)
  case Nil
  then show ?case by simp
next
  case (Cons x xs)
  show ?case
  proof (cases i)
    case 0
    then show ?thesis by simp
  next
    case (Suc n)
    with Cons.prems have "n < length xs" by simp
    from Cons.IH[OF this] Suc show ?thesis by (auto split: if_splits)
  qed
qed

lemma outstanding_le_holders: "outstanding s \<le> holders s"
proof -
  have "length (filter (\<lambda>a. phase a = InFlight) xs) \<le> length (filter holding xs)" for xs
    by (induction xs) (auto simp: holding_def)
  then show ?thesis by (simp add: outstanding_def holders_def)
qed

lemma sound_start: "sound (start loaded c)"
  by (simp add: sound_def start_def newTranslator_def holders_def)

lemma concurrency_step: "concurrency (tr (step e s)) = concurrency (tr s)"
proof (cases e)
  case (Call t0 src dst)
  then show ?thesis
    by (simp add: startCall_def Let_def acquire_def split: option.splits)
next
  case (Resume i)
  then show ?thesis by (simp add: resume_def Let_def)
next
  case (Settle i reply)
  then show ?thesis
    by (cases reply) (simp_all add: settle_def Let_def release_def split: list.splits)
qed

lemma sound_startCall: "sound s \<Longrightarrow> sound (startCall t0 src dst s)"
proof -
  assume s: "sound s"
  show ?thesis
  proof (cases "cachedValue (tr s) (key t0 src dst)")
    case (Some v)
    with s show ?thesis
      by (auto simp: startCall_def Let_def sound_def holders_def holding_def nth_append)
  next
    case None
    show ?thesis
    proof (cases "running (tr s) < concurrency (tr s)")
      case True
      with s None show ?thesis
        by (auto simp: startCall_def Let_def acquire_def sound_def holders_def holding_def nth_append)
    next
      case False
      with s None show ?thesis
        by (auto simp: startCall_def Let_def acquire_def sound_def holders_def holding_def nth_append)
    qed
  qed
qed

lemma sound_resume: "sound s \<Longrightarrow> sound (resume i s)"
proof (cases "i < length (calls s) \<and> phase (calls s ! i) = Granted")
  case False
  assume "sound s"
  with False show ?thesis by (auto simp: resume_def)
next
  case True
  assume s: "sound s"
  let ?a = "(calls s ! i)\<lparr>phase := InFlight\<rparr>"
  from True have "int (length (filter holding ((calls s)[i := ?a]))) = int (length (filter holding (calls s)))"
    using count_update[of i "calls s" holding ?a] by (simp add: holding_def)
  moreover have "\<forall>j \<in> set (queue (tr s)). j < length (calls s) \<and> phase ((calls s)[i := ?a] ! j) = Queued"
  proof
    fix j
    assume j: "j \<in> set (queue (tr s))"
    with s have q: "j < length (calls s)" "phase (calls s ! j) = Queued" by (auto simp: sound_def)
    with True have "j \<noteq> i" by auto
    with q show "j < length (calls s) \<and> phase ((calls s)[i := ?a] ! j) = Queued" by simp
  qed
  ultimately show ?thesis
    using s True by (simp add: resume_def Let_def sound_def holders_def)
qed

lemma sound_settle:
  assumes s: "sound s" and i: "i < length (calls s)" and f: "phase (calls s ! i) = InFlight"
    and ph: "ph \<noteq> Granted" "ph \<noteq> InFlight"
    and t1: "running t1 = running (tr s)" "queue t1 = queue (tr s)"
            "concurrency t1 = concurrency (tr s)"
    and tr': "tr s' = fst (release t1)"
    and calls': "calls s' = (case snd (release t1) of
                              None \<Rightarrow> (calls s)[i := (calls s ! i)\<lparr>phase := ph\<rparr>]
                            | Some j \<Rightarrow> ((calls s)[i := (calls s ! i)\<lparr>phase := ph\<rparr>])
                                 [j := (((calls s)[i := (calls s ! i)\<lparr>phase := ph\<rparr>]) ! j)\<lparr>phase := Granted\<rparr>])"
  shows "sound s'"
proof -
  let ?ended = "(calls s)[i := (calls s ! i)\<lparr>phase := ph\<rparr>]"
  have cnt: "int (length (filter holding ?ended)) = int (holders s) - 1"
    using count_update[OF i, of holding "(calls s ! i)\<lparr>phase := ph\<rparr>"] f ph
    by (simp add: holding_def holders_def)
  show ?thesis
  proof (cases "queue (tr s)")
    case Nil
    with s cnt t1 tr' calls' show ?thesis
      by (simp add: release_def sound_def holders_def)
  next
    case (Cons j rest)
    with s have j: "j < length (calls s)" "phase (calls s ! j) = Queued"
      and d: "j \<notin> set rest" "distinct rest"
      and r: "\<forall>k \<in> set rest. k < length (calls s) \<and> phase (calls s ! k) = Queued"
      by (auto simp: sound_def)
    from j f have ji: "j \<noteq> i" by auto
    with j have ej: "?ended ! j = calls s ! j" "j < length ?ended" by simp_all
    let ?woken = "?ended[j := (?ended ! j)\<lparr>phase := Granted\<rparr>]"
    have "int (length (filter holding ?woken)) = int (length (filter holding ?ended)) + 1"
      using count_update[OF ej(2), of holding "(?ended ! j)\<lparr>phase := Granted\<rparr>"] ej(1) j(2)
      by (simp add: holding_def)
    with cnt have h: "int (length (filter holding ?woken)) = int (holders s)" by simp
    have q: "\<forall>k \<in> set rest. k < length (calls s) \<and> phase (?woken ! k) = Queued"
    proof
      fix k
      assume k: "k \<in> set rest"
      with r have kq: "k < length (calls s)" "phase (calls s ! k) = Queued" by auto
      with f have "k \<noteq> i" by auto
      moreover from k d have "k \<noteq> j" by auto
      ultimately show "k < length (calls s) \<and> phase (?woken ! k) = Queued" using kq by simp
    qed
    from s h q d t1 Cons tr' calls' show ?thesis
      by (simp add: release_def sound_def holders_def)
  qed
qed

lemma sound_step: "sound s \<Longrightarrow> sound (step e s)"
proof (cases e)
  case (Call t0 src dst)
  assume "sound s"
  with Call show ?thesis by (simp add: sound_startCall)
next
  case (Resume i)
  assume "sound s"
  with Resume show ?thesis by (simp add: sound_resume)
next
  case (Settle i reply)
  assume s: "sound s"
  show ?thesis
  proof (cases "i < length (calls s) \<and> phase (calls s ! i) = InFlight")
    case False
    with s Settle show ?thesis by (auto simp: settle_def)
  next
    case True
    then have i: "i < length (calls s)" and f: "phase (calls s ! i) = InFlight" by simp_all
    show ?thesis
    proof (cases reply)
      case Rejected
      have "sound (settle i Rejected s)"
        by (rule sound_settle[OF s i f, of Threw "tr s"])
           (simp_all add: settle_def Let_def i f cong: option.case_cong)
      with Settle Rejected show ?thesis by simp
    next
      case (Completed content)
      let ?a = "calls s ! i"
      let ?r = "fromResponse (sourceText ?a) content"
      have "sound (settle i (Completed content) s)"
        by (rule sound_settle[OF s i f, of "Returned (fst ?r)"
              "(tr s)\<lparr>cache := (cache (tr s))(key (sourceText ?a) (fromLang ?a) (toLang ?a) \<mapsto> fst ?r)\<rparr>"])
           (simp_all add: settle_def Let_def i f cong: option.case_cong)
      with Settle Completed show ?thesis by simp
    qed
  qed
qed

lemma sound_run: "sound s \<Longrightarrow> sound (run s evs)"
  by (induction evs arbitrary: s) (simp_all add: sound_step)

lemma concurrency_run: "concurrency (tr (run s evs)) = concurrency (tr s)"
  by (induction evs arbitrary: s) (simp_all add: concurrency_step)

lemma settle_releases:
  assumes s: "sound s" and i: "i < length (calls s)" and f: "phase (calls s ! i) = InFlight"
  shows "phase (calls (step (Settle i reply) s) ! i)
           = (case reply of
                Rejected \<Rightarrow> Threw
              | Completed content \<Rightarrow> Returned (fst (fromResponse (sourceText (calls s ! i)) content)))
         \<and> (case queue (tr s) of
              [] \<Rightarrow> running (tr (step (Settle i reply) s)) = running (tr s) - 1
                     \<and> queue (tr (step (Settle i reply) s)) = []
            | j # rest \<Rightarrow> running (tr (step (Settle i reply) s)) = running (tr s)
                     \<and> queue (tr (step (Settle i reply) s)) = rest
                     \<and> phase (calls (step (Settle i reply) s) ! j) = Granted)"
proof (cases "queue (tr s)")
  case Nil
  with i f show ?thesis
    by (cases reply) (simp_all add: settle_def Let_def release_def)
next
  case (Cons j rest)
  with s have j: "j < length (calls s)" "phase (calls s ! j) = Queued" by (auto simp: sound_def)
  with f have "j \<noteq> i" by auto
  with Cons i f j show ?thesis
    by (cases reply) (simp_all add: settle_def Let_def release_def)
qed

text \<open>
  C1. For every positive concurrency \<open>c\<close>, after any sequence of calls, resumptions and
  completions on a fresh adapter, at most \<open>c\<close> remote calls are outstanding. Whatever
  the remote call of a call in flight comes to (it rejects, its response has lost a
  placeholder, or its response is accepted), the call is over afterwards and its slot is
  released: \<^verbatim>\<open>running\<close> goes down by one when no call waits, and the slot goes to the
  first waiting call otherwise.
\<close>

theorem concurrency_bound:
  assumes "0 < c"
  shows "int (outstanding (run (start loaded c) evs)) \<le> c
     \<and> (\<forall>i reply. i < length (calls (run (start loaded c) evs))
            \<and> phase (calls (run (start loaded c) evs) ! i) = InFlight \<longrightarrow>
          phase (calls (step (Settle i reply) (run (start loaded c) evs)) ! i)
            = (case reply of
                 Rejected \<Rightarrow> Threw
               | Completed content \<Rightarrow>
                   Returned (fst (fromResponse (sourceText (calls (run (start loaded c) evs) ! i)) content)))
          \<and> (case queue (tr (run (start loaded c) evs)) of
               [] \<Rightarrow> running (tr (step (Settle i reply) (run (start loaded c) evs)))
                        = running (tr (run (start loaded c) evs)) - 1
                      \<and> queue (tr (step (Settle i reply) (run (start loaded c) evs))) = []
             | j # rest \<Rightarrow> running (tr (step (Settle i reply) (run (start loaded c) evs)))
                        = running (tr (run (start loaded c) evs))
                      \<and> queue (tr (step (Settle i reply) (run (start loaded c) evs))) = rest
                      \<and> phase (calls (step (Settle i reply) (run (start loaded c) evs)) ! j) = Granted))"
proof -
  let ?s = "run (start loaded c) evs"
  have snd: "sound ?s" by (simp add: sound_run sound_start)
  have "concurrency (tr ?s) = max 1 c"
    by (simp add: concurrency_run start_def newTranslator_def)
  with assms have "concurrency (tr ?s) = c" by simp
  with snd have "int (holders ?s) \<le> c" by (simp add: sound_def)
  with outstanding_le_holders[of ?s] have bound: "int (outstanding ?s) \<le> c" by simp
  from settle_releases[OF snd] bound show ?thesis by blast
qed

lemma sample_run:
  "map phase (calls (run (start Map.empty 1) sampleEvents)) = [InFlight, Queued]"
  "queue (tr (run (start Map.empty 1) sampleEvents)) = [1]"
  "running (tr (run (start Map.empty 1) sampleEvents)) = 1"
  by (simp_all add: sampleEvents_def start_def newTranslator_def startCall_def cachedValue_def
      acquire_def resume_def Let_def)

theorem concurrency_bound_witness:
  "(0::int) < 1
   \<and> int (outstanding (run (start Map.empty 1) sampleEvents)) \<le> 1
   \<and> phase (calls (run (start Map.empty 1) sampleEvents) ! 0) = InFlight
   \<and> phase (calls (step (Settle 0 Rejected) (run (start Map.empty 1) sampleEvents)) ! 0) = Threw
   \<and> running (tr (step (Settle 0 Rejected) (run (start Map.empty 1) sampleEvents))) = 1
   \<and> queue (tr (step (Settle 0 Rejected) (run (start Map.empty 1) sampleEvents))) = []
   \<and> phase (calls (step (Settle 0 Rejected) (run (start Map.empty 1) sampleEvents)) ! 1) = Granted"
proof -
  let ?s = "run (start Map.empty 1) sampleEvents"
  have c: "(0::int) < 1" by simp
  have len: "length (calls ?s) = 2" using sample_run(1) by (metis length_map length_Cons list.size(3) numeral_2_eq_2)
  have ph: "phase (calls ?s ! 0) = InFlight"
    using sample_run(1) len by (metis nth_Cons_0 nth_map zero_less_numeral)
  from concurrency_bound[OF c, of Map.empty sampleEvents]
  have b: "int (outstanding ?s) \<le> 1"
    and r: "\<And>i reply. i < length (calls ?s) \<and> phase (calls ?s ! i) = InFlight \<Longrightarrow>
          phase (calls (step (Settle i reply) ?s) ! i)
            = (case reply of
                 Rejected \<Rightarrow> Threw
               | Completed content \<Rightarrow> Returned (fst (fromResponse (sourceText (calls ?s ! i)) content)))
          \<and> (case queue (tr ?s) of
               [] \<Rightarrow> running (tr (step (Settle i reply) ?s)) = running (tr ?s) - 1
                      \<and> queue (tr (step (Settle i reply) ?s)) = []
             | j # rest \<Rightarrow> running (tr (step (Settle i reply) ?s)) = running (tr ?s)
                      \<and> queue (tr (step (Settle i reply) ?s)) = rest
                      \<and> phase (calls (step (Settle i reply) ?s) ! j) = Granted)"
    by blast+
  from r[of 0 Rejected] len ph sample_run(2,3) b c show ?thesis by simp
qed

lemma translateString_hit:
  assumes "cachedValue (tr s) (key t0 src dst) = Some v"
  shows "fst (translateString reply t0 src dst s) = Inr v"
    and "requests (snd (translateString reply t0 src dst s)) = requests s"
    and "tr (snd (translateString reply t0 src dst s)) = tr s"
  using assms by (simp_all add: translateString_def startCall_def Let_def)

lemma translateString_miss:
  assumes miss: "cachedValue (tr s) (key t0 src dst) = None"
    and free: "running (tr s) < concurrency (tr s)" and idle: "queue (tr s) = []"
  shows "translateString (Completed content) t0 src dst s =
     (Inr (fst (fromResponse t0 content)),
      s\<lparr>tr := (tr s)\<lparr>cache := (cache (tr s))(key t0 src dst \<mapsto> fst (fromResponse t0 content))\<rparr>,
        calls := calls s @ [\<lparr>sourceText = t0, fromLang = src, toLang = dst,
                            phase = Returned (fst (fromResponse t0 content))\<rparr>],
        requests := requests s @ [(systemPrompt src dst, t0)],
        warnings := warnings s @ snd (fromResponse t0 content)\<rparr>)"
  using assms
  by (simp add: translateString_def startCall_def Let_def acquire_def resume_def settle_def
      release_def nth_append)

text \<open>
  C3, as amended. When the adapter is idle and has no usable cache entry for the text,
  \<^verbatim>\<open>translateString\<close> returns the text itself if the trimmed response of the remote
  service lacks a placeholder of the text, and logs one warning that names the lost
  placeholders; otherwise it returns the response with the white space at both ends
  removed (the empty string for a response without content).
\<close>

theorem translateString_placeholders:
  assumes "cachedValue (tr s) (key t0 src dst) = None"
    and "running (tr s) < concurrency (tr s)" and "queue (tr s) = []"
  shows "fst (translateString (Completed content) t0 src dst s)
           = Inr (if \<exists>ph \<in> set (placeholders t0).
                       \<not> includesStr (trim (case content of Some c \<Rightarrow> c | None \<Rightarrow> [])) ph
                  then t0 else trim (case content of Some c \<Rightarrow> c | None \<Rightarrow> []))
     \<and> warnings (snd (translateString (Completed content) t0 src dst s))
           = warnings s @
             (if \<exists>ph \<in> set (placeholders t0).
                    \<not> includesStr (trim (case content of Some c \<Rightarrow> c | None \<Rightarrow> [])) ph
              then [lostWarning (filter
                      (\<lambda>ph. \<not> includesStr (trim (case content of Some c \<Rightarrow> c | None \<Rightarrow> [])) ph)
                      (placeholders t0))]
              else [])"
proof -
  have "(lostIn t0 out \<noteq> []) = (\<exists>ph \<in> set (placeholders t0). \<not> includesStr out ph)" for out
    by (auto simp: lostIn_def filter_empty_conv)
  then show ?thesis
    unfolding translateString_miss[OF assms]
    by (simp add: fromResponse_def Let_def lostIn_def)
qed

lemmas adapter_eval =
  translateString_def start_def newTranslator_def startCall_def cachedValue_def key_def
  acquire_def resume_def settle_def release_def Let_def fromResponse_def lostIn_def lostWarning_def
  placeholders_def dedupe_def uniq_def notBrace_def trim_def whiteSpace_def startsWith_def

theorem translateString_placeholders_witness:
  "cachedValue (tr (start Map.empty 3)) (key ''Hello {name}'' ''en'' ''fr'') = None
   \<and> running (tr (start Map.empty 3)) < concurrency (tr (start Map.empty 3))
   \<and> queue (tr (start Map.empty 3)) = []
   \<and> fst (translateString (Completed (Some ''Bonjour'')) ''Hello {name}'' ''en'' ''fr''
            (start Map.empty 3)) = Inr ''Hello {name}''
   \<and> warnings (snd (translateString (Completed (Some ''Bonjour'')) ''Hello {name}'' ''en'' ''fr''
            (start Map.empty 3)))
       = [''Placeholder(s) {name} missing in translation. Using source text.'']"
proof -
  have a: "cachedValue (tr (start Map.empty 3)) (key ''Hello {name}'' ''en'' ''fr'') = None"
    and b: "running (tr (start Map.empty 3)) < concurrency (tr (start Map.empty 3))"
    and c: "queue (tr (start Map.empty 3)) = []"
    by (simp_all add: start_def newTranslator_def cachedValue_def)
  have p: "placeholders ''Hello {name}'' = [''{name}'']"
    by (simp add: placeholders_def dedupe_def uniq_def notBrace_def)
  have t: "trim ''Bonjour'' = ''Bonjour''"
    by (simp add: trim_def whiteSpace_def startsWith_def)
  have i: "\<not> includesStr ''Bonjour'' ''{name}''"
    by (simp add: startsWith_def)
  have w: "warnings (start Map.empty 3) = []" by (simp add: start_def)
  from translateString_placeholders[OF a b c, of "Some ''Bonjour''"] a b c
  show ?thesis by (simp add: p t w lostWarning_def startsWith_def)
qed

theorem translateString_trims_counterexample:
  "placeholders ''Hi'' = []
   \<and> fst (translateString (Completed (Some '' Salut '')) ''Hi'' ''en'' ''fr'' (start Map.empty 3))
       = Inr ''Salut''
   \<and> ''Salut'' \<noteq> '' Salut ''"
  by (simp add: adapter_eval)

text \<open>
  C2. Two requests for the same text and locales should lead to one remote call at most,
  the second being answered from the cache. Here the first translation is the empty
  string: it is cached, \<^verbatim>\<open>if (cached)\<close> takes it for a miss, and the second request
  calls the remote service again and returns what that says.
\<close>

theorem translateString_empty_not_cached:
  "fst (translateString (Completed (Some [])) [] ''en'' ''fr'' (start Map.empty 3)) = Inr []
   \<and> cache (tr (snd (translateString (Completed (Some [])) [] ''en'' ''fr'' (start Map.empty 3))))
        (key [] ''en'' ''fr'') = Some []
   \<and> length (requests (snd (translateString (Completed (Some [])) [] ''en'' ''fr''
        (start Map.empty 3)))) = 1
   \<and> fst (translateString (Completed (Some ''?'')) [] ''en'' ''fr''
        (snd (translateString (Completed (Some [])) [] ''en'' ''fr'' (start Map.empty 3))))
       = Inr ''?''
   \<and> length (requests (snd (translateString (Completed (Some ''?'')) [] ''en'' ''fr''
        (snd (translateString (Completed (Some [])) [] ''en'' ''fr'' (start Map.empty 3)))))) = 2"
  by (simp add: adapter_eval nth_append)

text \<open>When the first translation is not empty, the second request is answered from the
  cache and sends nothing.\<close>

lemma translateString_repeat:
  assumes miss: "cachedValue (tr s) (key t0 src dst) = None"
    and free: "running (tr s) < concurrency (tr s)" and idle: "queue (tr s) = []"
    and first: "translateString (Completed content) t0 src dst s = (Inr v, s1)" and v: "v \<noteq> []"
  shows "fst (translateString reply t0 src dst s1) = Inr v"
    and "requests (snd (translateString reply t0 src dst s1)) = requests s @ [(systemPrompt src dst, t0)]"
proof -
  from first translateString_miss[OF miss free idle, of content]
  have v': "v = fst (fromResponse t0 content)"
    and s1: "tr s1 = (tr s)\<lparr>cache := (cache (tr s))(key t0 src dst \<mapsto> v)\<rparr>"
    and r: "requests s1 = requests s @ [(systemPrompt src dst, t0)]"
    by auto
  from s1 v have hit: "cachedValue (tr s1) (key t0 src dst) = Some v"
    by (simp add: cachedValue_def)
  from translateString_hit[OF hit] r
  show "fst (translateString reply t0 src dst s1) = Inr v"
    and "requests (snd (translateString reply t0 src dst s1)) = requests s @ [(systemPrompt src dst, t0)]"
    by simp_all
qed

section \<open>Properties of the orchestrator\<close>

lemma endOf_simps [simp]:
  "endOf wld (Inl f) = snd f" "endOf wld (Inr s) = wld s"
  by (simp_all add: endOf_def)

lemma files_say [simp]: "files (say lv line w) = files w"
  by (simp add: say_def)

lemma files_decide [simp]: "files (snd (decide E P a m d w)) = files w"
  by (simp add: decide_def promptYesNo_def)

lemma files_translateIn: "files (endOf snd (translateIn E s src dst w)) = files w"
  by (simp add: translateIn_def Let_def split: sum.splits)

lemma files_translateIn_Inr [simp]: "translateIn E s src dst w = Inr r \<Longrightarrow> files (snd r) = files w"
  using files_translateIn[of E s src dst w] by simp

lemma files_translateIn_Inl [simp]: "translateIn E s src dst w = Inl f \<Longrightarrow> files (snd f) = files w"
  using files_translateIn[of E s src dst w] by simp

lemma files_translateIn_pair:
  "translateIn E s src dst w = Inr (v, w') \<Longrightarrow> files w' = files w"
  "translateIn E s src dst w = Inl (e, w') \<Longrightarrow> files w' = files w"
  using files_translateIn[of E s src dst w] by simp_all

lemma files_translateLeaves:
  "files (endOf snd (translateLeaves E flat src dst vb ks out w)) = files w"
proof (induction ks arbitrary: out w)
  case Nil
  show ?case by simp
next
  case (Cons k ks)
  show ?case
  proof (cases "get flat k")
    case (JStr s)
    show ?thesis
    proof (cases "translateIn E s src dst w")
      case (Inl f)
      with JStr show ?thesis by simp
    next
      case (Inr r)
      show ?thesis
      proof (cases "setAtPath out k (JStr (fst r))")
        case (Inl e)
        with JStr Inr show ?thesis by simp
      next
        case out1: (Inr out1)
        with JStr Inr Cons.IH[of out1] show ?thesis by simp
      qed
    qed
  qed (use Cons.IH in \<open>simp_all split: sum.splits\<close>)
qed

lemma files_translateWholeFile:
  "files (endOf snd (translateWholeFile E obj src dst vb w)) = files w"
  by (simp add: translateWholeFile_def files_translateLeaves)

lemma forEach_files:
  assumes "\<And>x s. files (endOf wld (body x s)) = files (wld s)"
  shows "files (endOf wld (forEach body xs s)) = files (wld s)"
proof (induction xs arbitrary: s)
  case Nil
  show ?case by simp
next
  case (Cons x xs)
  show ?case
  proof (cases "body x s")
    case (Inl f)
    with assms[of x s] show ?thesis by simp
  next
    case (Inr s1)
    with assms[of x s] Cons.IH[of s1] show ?thesis by simp
  qed
qed

lemma files_resolveMissing:
  "files (endOf treesWorld (resolveMissing E P k st)) = files (treesWorld st)"
  by (auto simp: resolveMissing_def Let_def treesWorld_def split: sum.splits
      dest!: files_translateIn_pair)

lemma files_resolveExtra:
  "files (endOf treesWorld (resolveExtra E P k st)) = files (treesWorld st)"
  by (auto simp: resolveExtra_def Let_def treesWorld_def split: sum.splits
      dest!: files_translateIn_pair)

lemma files_resolveMismatch:
  "files (endOf treesWorld (resolveMismatch E P tm st)) = files (treesWorld st)"
  by (auto simp: resolveMismatch_def Let_def treesWorld_def split: sum.splits)

lemma files_writeJSON_dry [simp]: "dryRun P \<Longrightarrow> files (writeJSON E P dir name obj w) = files w"
  by (simp add: writeJSON_def)

lemma files_keyLoops:
  "files (endOf treesWorld (forEach (resolveMissing E P) ks st)) = files (treesWorld st)"
  "files (endOf treesWorld (forEach (resolveExtra E P) ks st)) = files (treesWorld st)"
  "files (endOf treesWorld (forEach (resolveMismatch E P) tms st)) = files (treesWorld st)"
  by (rule forEach_files, rule files_resolveMissing files_resolveExtra files_resolveMismatch)+

lemma files_syncCommonFile:
  assumes "dryRun P"
  shows "files (endOf id (syncCommonFile E P file w)) = files w"
proof -
  let ?b = "readJSONSync (files w) (base P) file"
  let ?l = "readJSONSync (files w) (lang P) file"
  let ?d = "diffKeys ?b ?l"
  let ?st0 = "(?b, ?l, say Info [Str ([CHR 0x0A] @ ''File: '' @ file)] w)"
  show ?thesis
  proof (cases "length (missingInTarget ?d) = 0 \<and> length (extraInTarget ?d) = 0
                \<and> length (typeMismatches ?d) = 0")
    case True
    then show ?thesis by (simp add: syncCommonFile_def Let_def)
  next
    case False
    have f0: "files (treesWorld ?st0) = files w" by (simp add: treesWorld_def)
    show ?thesis
    proof (cases "forEach (resolveMissing E P) (missingInTarget ?d) ?st0")
      case (Inl f)
      with files_keyLoops(1)[of E P "missingInTarget ?d" ?st0] f0 False
      show ?thesis by (simp add: syncCommonFile_def Let_def)
    next
      case (Inr st1)
      with files_keyLoops(1)[of E P "missingInTarget ?d" ?st0] f0
      have f1: "files (treesWorld st1) = files w" by simp
      show ?thesis
      proof (cases "forEach (resolveExtra E P) (extraInTarget ?d) st1")
        case (Inl f)
        with files_keyLoops(2)[of E P "extraInTarget ?d" st1] f1 False Inr
        show ?thesis by (simp add: syncCommonFile_def Let_def)
      next
        case st2: (Inr st2)
        with files_keyLoops(2)[of E P "extraInTarget ?d" st1] f1
        have f2: "files (treesWorld st2) = files w" by simp
        show ?thesis
        proof (cases "forEach (resolveMismatch E P) (typeMismatches ?d) st2")
          case (Inl f)
          with files_keyLoops(3)[of E P "typeMismatches ?d" st2] f2 False Inr st2
          show ?thesis by (simp add: syncCommonFile_def Let_def)
        next
          case st3: (Inr st3)
          with files_keyLoops(3)[of E P "typeMismatches ?d" st2] f2
          have "files (treesWorld st3) = files w" by simp
          with False Inr st2 st3 assms show ?thesis
            by (simp add: syncCommonFile_def Let_def treesWorld_def)
        qed
      qed
    qed
  qed
qed

lemma files_syncMissingFile:
  assumes "dryRun P"
  shows "files (endOf id (syncMissingFile E P file w)) = files w"
proof -
  let ?d = "decide E P (\<not> preferRemove P)
              (lang P @ ''/'' @ file @ '' missing. Create by translating from '' @ base P @ ''?'')
              True w"
  have "files (endOf snd (translateWholeFile E (readJSONSync (files w) (base P) file)
           (base P) (lang P) (verbose P) (snd ?d))) = files w"
    by (simp add: files_translateWholeFile)
  with assms show ?thesis
    by (auto simp: syncMissingFile_def Let_def split: sum.splits)
qed

lemma files_syncExtraFile:
  assumes "dryRun P"
  shows "files (endOf id (syncExtraFile E P file w)) = files w"
proof -
  let ?d = "decide E P (\<not> preferRemove P)
              (lang P @ ''/'' @ file @ '' exists but '' @ base P @ ''/'' @ file
                @ '' does not. Add to base by translating?'') True w"
  have "files (endOf snd (translateWholeFile E (readJSONSync (files w) (lang P) file)
           (lang P) (base P) (verbose P) (snd ?d))) = files w"
    by (simp add: files_translateWholeFile)
  with assms show ?thesis
    by (auto simp: syncExtraFile_def Let_def split: sum.splits)
qed

lemma finalWorld_endOf: "finalWorld r = endOf id r"
  by (cases r) (simp_all add: finalWorld_def endOf_def)

lemma files_fileLoops:
  assumes "dryRun P"
  shows "files (endOf id (forEach (syncMissingFile E P) fs w)) = files w"
    and "files (endOf id (forEach (syncExtraFile E P) fs w)) = files w"
    and "files (endOf id (forEach (syncCommonFile E P) fs w)) = files w"
  using forEach_files[of id "syncMissingFile E P" fs w] files_syncMissingFile[OF assms]
    forEach_files[of id "syncExtraFile E P" fs w] files_syncExtraFile[OF assms]
    forEach_files[of id "syncCommonFile E P" fs w] files_syncCommonFile[OF assms]
  by simp_all

lemma files_syncLanguage:
  assumes "dryRun P"
  shows "files (finalWorld (syncLanguage E P w)) = files w"
proof -
  let ?baseFiles = "uniq (listJsonFiles E (files w (base P)))"
  let ?langFiles = "uniq (listJsonFiles E (files w (lang P)))"
  let ?missing = "filter (\<lambda>f. f \<notin> set ?langFiles) ?baseFiles"
  let ?extra = "filter (\<lambda>f. f \<notin> set ?baseFiles) ?langFiles"
  let ?common = "filter (\<lambda>f. f \<in> set ?langFiles) ?baseFiles"
  have "\<exists>w3. files w3 = files w \<and> syncLanguage E P w =
       (case forEach (syncMissingFile E P) ?missing w3 of
          Inl f \<Rightarrow> Inl f
        | Inr w4 \<Rightarrow>
            (case forEach (syncExtraFile E P) ?extra w4 of
               Inl f \<Rightarrow> Inl f
             | Inr w5 \<Rightarrow> forEach (syncCommonFile E P) ?common w5))"
    unfolding syncLanguage_def Let_def
    apply (rule exI)
    apply (rule conjI)
     prefer 2
     apply (rule refl)
    apply simp
    done
  then obtain w3 where w3: "files w3 = files w"
    and run: "syncLanguage E P w =
       (case forEach (syncMissingFile E P) ?missing w3 of
          Inl f \<Rightarrow> Inl f
        | Inr w4 \<Rightarrow>
            (case forEach (syncExtraFile E P) ?extra w4 of
               Inl f \<Rightarrow> Inl f
             | Inr w5 \<Rightarrow> forEach (syncCommonFile E P) ?common w5))"
    by blast
  show ?thesis
  proof (cases "forEach (syncMissingFile E P) ?missing w3")
    case (Inl f)
    with files_fileLoops(1)[OF assms, of E ?missing w3] w3 run
    show ?thesis by (simp add: finalWorld_endOf)
  next
    case (Inr w4)
    with files_fileLoops(1)[OF assms, of E ?missing w3] w3
    have w4: "files w4 = files w" by simp
    show ?thesis
    proof (cases "forEach (syncExtraFile E P) ?extra w4")
      case (Inl f)
      with files_fileLoops(2)[OF assms, of E ?extra w4] w4 run Inr
      show ?thesis by (simp add: finalWorld_endOf)
    next
      case w5: (Inr w5)
      with files_fileLoops(2)[OF assms, of E ?extra w4] w4
      have "files w5 = files w" by simp
      with files_fileLoops(3)[OF assms, of E ?common w5] run Inr w5
      show ?thesis by (simp add: finalWorld_endOf)
    qed
  qed
qed

lemma adapter_writeJSON [simp]: "adapterState (writeJSON E P dir name obj w) = adapterState w"
  by (simp add: writeJSON_def say_def)

lemma adapter_say [simp]: "adapterState (say lv line w) = adapterState w"
  by (simp add: say_def)

lemma decide_dryRun [simp]: "decide E (P\<lparr>dryRun := b\<rparr>) = decide E P"
  by (intro ext) (simp add: decide_def)

lemma resolveMissing_dryRun [simp]: "resolveMissing E (P\<lparr>dryRun := b\<rparr>) = resolveMissing E P"
  by (intro ext) (simp add: resolveMissing_def Let_def cong: sum.case_cong if_cong)

lemma resolveExtra_dryRun [simp]: "resolveExtra E (P\<lparr>dryRun := b\<rparr>) = resolveExtra E P"
  by (intro ext) (simp add: resolveExtra_def Let_def cong: sum.case_cong if_cong)

lemma resolveMismatch_dryRun [simp]: "resolveMismatch E (P\<lparr>dryRun := b\<rparr>) = resolveMismatch E P"
  by (intro ext) (simp add: resolveMismatch_def Let_def cong: sum.case_cong if_cong)

subsection \<open>A run with \<^verbatim>\<open>dryRun\<close> beside the run without it\<close>

text \<open>Translation and the resolution of a key read neither the directories nor the lines
  logged: they commute with \<^verbatim>\<open>relocate\<close>. So two worlds with the same \<^verbatim>\<open>core\<close> that
  agree on the file a step reads go through this step alike, but for the writes. A step
  of the run without \<^verbatim>\<open>dryRun\<close> changes the file of its name only, and the file names of
  the three loops are distinct, so every step of the two runs reads the same trees.\<close>

lemma core_relocate [simp]: "core (relocate F C w) = core w"
  by (simp add: core_def relocate_def)

lemma relocate_core: "relocate (files w) (console w) (core w) = w"
  by (simp add: core_def relocate_def)

lemma say_relocate: "say lv line (relocate F C w) = relocate F C (say lv line w)"
  by (simp add: say_def relocate_def)

lemma decide_relocate:
  "decide E P a m d (relocate F C w) = (fst (decide E P a m d w), relocate F C (snd (decide E P a m d w)))"
  by (simp add: decide_def promptYesNo_def relocate_def)

lemma translateIn_relocate:
  "translateIn E s src dst (relocate F C w) = overValue (relocate F C) (translateIn E s src dst w)"
  by (simp add: translateIn_def Let_def overValue_def relocate_def split: sum.splits)

lemma translateLeaves_relocate:
  "translateLeaves E flat src dst vb ks out (relocate F C w)
     = overValue (relocate F C) (translateLeaves E flat src dst vb ks out w)"
proof (induction ks arbitrary: out w)
  case Nil
  show ?case by (simp add: overValue_def)
next
  case (Cons k ks)
  show ?case
  proof (cases "get flat k")
    case (JStr s)
    show ?thesis
    proof (cases "translateIn E s src dst w")
      case (Inl f)
      with JStr show ?thesis by (simp add: translateIn_relocate overValue_def)
    next
      case (Inr r)
      show ?thesis
      proof (cases "setAtPath out k (JStr (fst r))")
        case (Inl e)
        with JStr Inr show ?thesis by (simp add: translateIn_relocate overValue_def)
      next
        case out1: (Inr out1)
        show ?thesis
        proof (cases vb)
          case True
          with JStr Inr out1 Cons.IH[of out1 "say Info [Str (''Translated '' @ k)] (snd r)"]
          show ?thesis by (simp add: translateIn_relocate overValue_def say_relocate)
        next
          case False
          with JStr Inr out1 Cons.IH[of out1 "snd r"]
          show ?thesis by (simp add: translateIn_relocate overValue_def)
        qed
      qed
    qed
  qed (use Cons.IH in \<open>simp_all add: overValue_def split: sum.splits\<close>)
qed

lemma translateWholeFile_relocate:
  "translateWholeFile E obj src dst vb (relocate F C w)
     = overValue (relocate F C) (translateWholeFile E obj src dst vb w)"
  by (simp add: translateWholeFile_def translateLeaves_relocate)

lemma resolveMissing_relocate:
  "resolveMissing E P k (b, l, relocate F C w) = overTrees (relocate F C) (resolveMissing E P k (b, l, w))"
  by (simp add: resolveMissing_def Let_def overTrees_def say_relocate decide_relocate
      translateIn_relocate overValue_def split: sum.splits)

lemma resolveExtra_relocate:
  "resolveExtra E P k (b, l, relocate F C w) = overTrees (relocate F C) (resolveExtra E P k (b, l, w))"
  by (simp add: resolveExtra_def Let_def overTrees_def say_relocate decide_relocate
      translateIn_relocate overValue_def split: sum.splits)

lemma resolveMismatch_relocate:
  "resolveMismatch E P tm (b, l, relocate F C w)
     = overTrees (relocate F C) (resolveMismatch E P tm (b, l, w))"
  by (simp add: resolveMismatch_def Let_def overTrees_def say_relocate decide_relocate
      split: sum.splits)

lemma forEach_relocate:
  assumes "\<And>x b l w. body x (b, l, relocate F C w) = overTrees (relocate F C) (body x (b, l, w))"
  shows "forEach body xs (b, l, relocate F C w) = overTrees (relocate F C) (forEach body xs (b, l, w))"
proof (induction xs arbitrary: b l w)
  case Nil
  show ?case by (simp add: overTrees_def)
next
  case (Cons x xs)
  show ?case
  proof (cases "body x (b, l, w)")
    case (Inl f)
    with assms[of x b l w] show ?thesis by (simp add: overTrees_def)
  next
    case (Inr st)
    obtain b1 l1 w1 where st: "st = (b1, l1, w1)" by (cases st) auto
    with Inr assms[of x b l w] Cons.IH[of b1 l1 w1] show ?thesis by (simp add: overTrees_def)
  qed
qed


lemma over_core_relocate [simp]:
  "overValue core (overValue (relocate F C) r) = overValue core r"
  "overTrees core (overTrees (relocate F C) t) = overTrees core t"
  by (cases r; simp add: overValue_def) (cases t; simp add: overTrees_def)

lemma core_say [simp]: "core (say lv line w) = core w"
  by (simp add: core_def say_def)

lemma core_asked: "core w = core w' \<Longrightarrow> asked w = asked w'"
  by (metis core_def world.select_convs(4) world.surjective world.update_convs(1,3))

lemma core_adapter: "core w = core w' \<Longrightarrow> adapterState w = adapterState w'"
  by (metis core_def world.select_convs(2) world.surjective world.update_convs(1,3))

lemma core_decide:
  assumes "core w = core w'"
  shows "fst (decide E P a m d w) = fst (decide E P a m d w')"
    and "core (snd (decide E P a m d w)) = core (snd (decide E P a m d w'))"
proof -
  have "decide E P a m d w = (fst (decide E P a m d (core w)),
          relocate (files w) (console w) (snd (decide E P a m d (core w))))"
    using decide_relocate[of E P a m d "files w" "console w" "core w"] by (simp add: relocate_core)
  moreover have "decide E P a m d w' = (fst (decide E P a m d (core w')),
          relocate (files w') (console w') (snd (decide E P a m d (core w'))))"
    using decide_relocate[of E P a m d "files w'" "console w'" "core w'"] by (simp add: relocate_core)
  ultimately show "fst (decide E P a m d w) = fst (decide E P a m d w')"
    and "core (snd (decide E P a m d w)) = core (snd (decide E P a m d w'))"
    using assms by simp_all
qed

lemma core_translateWholeFile:
  assumes "core w = core w'"
  shows "overValue core (translateWholeFile E obj src dst vb w)
       = overValue core (translateWholeFile E obj src dst vb w')"
proof -
  have "overValue core (translateWholeFile E obj src dst vb v)
      = overValue core (translateWholeFile E obj src dst vb (core v))" for v
    using translateWholeFile_relocate[of E obj src dst vb "files v" "console v" "core v"]
    by (simp add: relocate_core)
  from this[of w] this[of w'] assms show ?thesis by simp
qed

lemma core_keyLoop:
  assumes "\<And>x b l F C w. body x (b, l, relocate F C w) = overTrees (relocate F C) (body x (b, l, w))"
    and "core w = core w'"
  shows "overTrees core (forEach body xs (b, l, w)) = overTrees core (forEach body xs (b, l, w'))"
proof -
  have "overTrees core (forEach body xs (b, l, v))
      = overTrees core (forEach body xs (b, l, core v))" for v
    using forEach_relocate[of body "files v" "console v" xs b l "core v"] assms(1)
    by (simp add: relocate_core)
  from this[of w] this[of w'] assms(2) show ?thesis by simp
qed

lemma overTrees_cases:
  assumes "overTrees core r = overTrees core r'"
  shows "(\<exists>e x y. r = Inl (e, x) \<and> r' = Inl (e, y) \<and> core x = core y)
       \<or> (\<exists>b l x y. r = Inr (b, l, x) \<and> r' = Inr (b, l, y) \<and> core x = core y)"
  using assms by (cases r; cases r') (auto simp: overTrees_def)

lemma overValue_cases:
  assumes "overValue core r = overValue core r'"
  shows "(\<exists>e x y. r = Inl (e, x) \<and> r' = Inl (e, y) \<and> core x = core y)
       \<or> (\<exists>v x y. r = Inr (v, x) \<and> r' = Inr (v, y) \<and> core x = core y)"
  using assms by (cases r; cases r') (auto simp: overValue_def)

lemma core_writeJSON [simp]: "core (writeJSON E P dir name obj w) = core w"
  by (simp add: writeJSON_def core_def say_def)

lemma readJSONSync_agree:
  "map_of (fs d) name = map_of (fs' d) name \<Longrightarrow> readJSONSync fs d name = readJSONSync fs' d name"
  by (simp add: readJSONSync_def)


lemma rel_syncCommonFile:
  assumes c: "core wd = core ww"
    and ag: "\<forall>d. map_of (files wd d) file = map_of (files ww d) file"
  shows "overEnd core (syncCommonFile E P file wd)
       = overEnd core (syncCommonFile E (P\<lparr>dryRun := x\<rparr>) file ww)"
proof -
  let ?b = "readJSONSync (files wd) (base P) file"
  let ?l = "readJSONSync (files wd) (lang P) file"
  have rb: "readJSONSync (files ww) (base P) file = ?b"
    and rl: "readJSONSync (files ww) (lang P) file = ?l"
    using ag by (simp_all add: readJSONSync_def)
  let ?d = "diffKeys ?b ?l"
  let ?line = "[Str ([CHR 0x0A] @ ''File: '' @ file)]"
  show ?thesis
  proof (cases "length (missingInTarget ?d) = 0 \<and> length (extraInTarget ?d) = 0
                \<and> length (typeMismatches ?d) = 0")
    case True
    with c rb rl show ?thesis by (auto simp: syncCommonFile_def Let_def overEnd_def)
  next
    case False
    have c0: "core (say Info ?line wd) = core (say Info ?line ww)" using c by simp
    let ?r1 = "forEach (resolveMissing E P) (missingInTarget ?d) (?b, ?l, say Info ?line wd)"
    let ?r1' = "forEach (resolveMissing E P) (missingInTarget ?d) (?b, ?l, say Info ?line ww)"
    from overTrees_cases[OF core_keyLoop[of "resolveMissing E P", OF resolveMissing_relocate c0]]
    have "(\<exists>e x y. ?r1 = Inl (e, x) \<and> ?r1' = Inl (e, y) \<and> core x = core y)
       \<or> (\<exists>b l x y. ?r1 = Inr (b, l, x) \<and> ?r1' = Inr (b, l, y) \<and> core x = core y)" .
    then show ?thesis
    proof (elim disjE exE conjE)
      fix e x y
      assume "?r1 = Inl (e, x)" "?r1' = Inl (e, y)" "core x = core y"
      with False rb rl show ?thesis by (auto simp: syncCommonFile_def Let_def overEnd_def)
    next
      fix b1 l1 x1 y1
      assume r1: "?r1 = Inr (b1, l1, x1)" "?r1' = Inr (b1, l1, y1)" and c1: "core x1 = core y1"
      let ?r2 = "forEach (resolveExtra E P) (extraInTarget ?d) (b1, l1, x1)"
      let ?r2' = "forEach (resolveExtra E P) (extraInTarget ?d) (b1, l1, y1)"
      from overTrees_cases[OF core_keyLoop[of "resolveExtra E P", OF resolveExtra_relocate c1]]
      have "(\<exists>e x y. ?r2 = Inl (e, x) \<and> ?r2' = Inl (e, y) \<and> core x = core y)
         \<or> (\<exists>b l x y. ?r2 = Inr (b, l, x) \<and> ?r2' = Inr (b, l, y) \<and> core x = core y)" .
      then show ?thesis
      proof (elim disjE exE conjE)
        fix e x y
        assume "?r2 = Inl (e, x)" "?r2' = Inl (e, y)" "core x = core y"
        with False rb rl r1 show ?thesis by (auto simp: syncCommonFile_def Let_def overEnd_def)
      next
        fix b2 l2 x2 y2
        assume r2: "?r2 = Inr (b2, l2, x2)" "?r2' = Inr (b2, l2, y2)" and c2: "core x2 = core y2"
        let ?r3 = "forEach (resolveMismatch E P) (typeMismatches ?d) (b2, l2, x2)"
        let ?r3' = "forEach (resolveMismatch E P) (typeMismatches ?d) (b2, l2, y2)"
        from overTrees_cases[OF core_keyLoop[of "resolveMismatch E P", OF resolveMismatch_relocate c2]]
        have "(\<exists>e x y. ?r3 = Inl (e, x) \<and> ?r3' = Inl (e, y) \<and> core x = core y)
           \<or> (\<exists>b l x y. ?r3 = Inr (b, l, x) \<and> ?r3' = Inr (b, l, y) \<and> core x = core y)" .
        then show ?thesis
        proof (elim disjE exE conjE)
          fix e x y
          assume "?r3 = Inl (e, x)" "?r3' = Inl (e, y)" "core x = core y"
          with False rb rl r1 r2 show ?thesis
            by (auto simp: syncCommonFile_def Let_def overEnd_def)
        next
          fix b3 l3 x3 y3
          assume "?r3 = Inr (b3, l3, x3)" "?r3' = Inr (b3, l3, y3)" "core x3 = core y3"
          with False rb rl r1 r2 show ?thesis
            by (auto simp: syncCommonFile_def Let_def overEnd_def)
        qed
      qed
    qed
  qed
qed

lemma core_rm: "name \<in> fst ` set (files w dir) \<Longrightarrow> \<exists>w'. rm dir name w = Inr w' \<and> core w' = core w"
  by (simp add: rm_def core_def)

lemma rel_syncMissingFile:
  assumes c: "core wd = core ww"
    and ag: "\<forall>d. map_of (files wd d) file = map_of (files ww d) file"
    and here: "file \<in> fst ` set (files wd (base P))"
  shows "overEnd core (syncMissingFile E P file wd)
       = overEnd core (syncMissingFile E (P\<lparr>dryRun := x\<rparr>) file ww)"
proof -
  let ?b = "readJSONSync (files wd) (base P) file"
  have rb: "readJSONSync (files ww) (base P) file = ?b"
    using ag by (simp add: readJSONSync_def)
  let ?m = "lang P @ ''/'' @ file @ '' missing. Create by translating from '' @ base P @ ''?''"
  let ?d = "decide E P (\<not> preferRemove P) ?m True wd"
  let ?d' = "decide E P (\<not> preferRemove P) ?m True ww"
  from core_decide[OF c] have d: "fst ?d' = fst ?d" and cd: "core (snd ?d) = core (snd ?d')"
    by simp_all
  have fd: "files (snd ?d) = files wd" "files (snd ?d') = files ww"
    by (simp_all add: decide_def promptYesNo_def)
  show ?thesis
  proof (cases "fst ?d")
    case True
    let ?t = "translateWholeFile E ?b (base P) (lang P) (verbose P) (snd ?d)"
    let ?t' = "translateWholeFile E ?b (base P) (lang P) (verbose P) (snd ?d')"
    from overValue_cases[OF core_translateWholeFile[OF cd]]
    have "(\<exists>e x y. ?t = Inl (e, x) \<and> ?t' = Inl (e, y) \<and> core x = core y)
        \<or> (\<exists>v x y. ?t = Inr (v, x) \<and> ?t' = Inr (v, y) \<and> core x = core y)" .
    with True d rb show ?thesis
      by (auto simp: syncMissingFile_def Let_def overEnd_def)
  next
    case False
    let ?m2 = "''Remove '' @ base P @ ''/'' @ file @ '' instead?''"
    let ?d2 = "decide E P (preferRemove P) ?m2 False (snd ?d)"
    let ?d2' = "decide E P (preferRemove P) ?m2 False (snd ?d')"
    from core_decide[OF cd] have d2: "fst ?d2' = fst ?d2" and cd2: "core (snd ?d2) = core (snd ?d2')"
      by simp_all
    have fd2: "files (snd ?d2) = files wd" "files (snd ?d2') = files ww"
      using fd by (simp_all add: decide_def promptYesNo_def)
    from here ag have here': "file \<in> fst ` set (files ww (base P))"
      by (metis domIff dom_map_of_conv_image_fst)
    from core_rm[of "file" "snd ?d2" "base P"] here fd2
    obtain u where u: "rm (base P) file (snd ?d2) = Inr u" "core u = core (snd ?d2)" by auto
    from core_rm[of "file" "snd ?d2'" "base P"] here' fd2
    obtain u' where u': "rm (base P) file (snd ?d2') = Inr u'" "core u' = core (snd ?d2')" by auto
    from False d d2 cd2 u u' rb show ?thesis
      by (simp add: syncMissingFile_def Let_def overEnd_def)
  qed
qed

lemma rel_syncExtraFile:
  assumes c: "core wd = core ww"
    and ag: "\<forall>d. map_of (files wd d) file = map_of (files ww d) file"
    and here: "file \<in> fst ` set (files wd (lang P))"
  shows "overEnd core (syncExtraFile E P file wd)
       = overEnd core (syncExtraFile E (P\<lparr>dryRun := x\<rparr>) file ww)"
proof -
  let ?m = "lang P @ ''/'' @ file @ '' exists but '' @ base P @ ''/'' @ file
              @ '' does not. Add to base by translating?''"
  let ?d = "decide E P (\<not> preferRemove P) ?m True wd"
  let ?d' = "decide E P (\<not> preferRemove P) ?m True ww"
  from core_decide[OF c] have d: "fst ?d' = fst ?d" and cd: "core (snd ?d) = core (snd ?d')"
    by simp_all
  have fd: "files (snd ?d) = files wd" "files (snd ?d') = files ww"
    by (simp_all add: decide_def promptYesNo_def)
  let ?l = "readJSONSync (files wd) (lang P) file"
  have rl: "readJSONSync (files (snd ?d')) (lang P) file = ?l"
    "readJSONSync (files (snd ?d)) (lang P) file = ?l"
    using ag fd by (simp_all add: readJSONSync_def)
  show ?thesis
  proof (cases "fst ?d")
    case True
    let ?t = "translateWholeFile E ?l (lang P) (base P) (verbose P) (snd ?d)"
    let ?t' = "translateWholeFile E ?l (lang P) (base P) (verbose P) (snd ?d')"
    from overValue_cases[OF core_translateWholeFile[OF cd]]
    have "(\<exists>e x y. ?t = Inl (e, x) \<and> ?t' = Inl (e, y) \<and> core x = core y)
        \<or> (\<exists>v x y. ?t = Inr (v, x) \<and> ?t' = Inr (v, y) \<and> core x = core y)" .
    with True d rl show ?thesis
      by (auto simp: syncExtraFile_def Let_def overEnd_def)
  next
    case False
    let ?m2 = "''Remove '' @ lang P @ ''/'' @ file @ ''?''"
    let ?d2 = "decide E P (preferRemove P) ?m2 False (snd ?d)"
    let ?d2' = "decide E P (preferRemove P) ?m2 False (snd ?d')"
    from core_decide[OF cd] have d2: "fst ?d2' = fst ?d2" and cd2: "core (snd ?d2) = core (snd ?d2')"
      by simp_all
    have fd2: "files (snd ?d2) = files wd" "files (snd ?d2') = files ww"
      using fd by (simp_all add: decide_def promptYesNo_def)
    from here ag have here': "file \<in> fst ` set (files ww (lang P))"
      by (metis domIff dom_map_of_conv_image_fst)
    from core_rm[of "file" "snd ?d2" "lang P"] here fd2
    obtain u where u: "rm (lang P) file (snd ?d2) = Inr u" "core u = core (snd ?d2)" by auto
    from core_rm[of "file" "snd ?d2'" "lang P"] here' fd2
    obtain u' where u': "rm (lang P) file (snd ?d2') = Inr u'" "core u' = core (snd ?d2')" by auto
    from False d d2 cd2 u u' show ?thesis
      by (simp add: syncExtraFile_def Let_def overEnd_def)
  qed
qed

lemma frame_writeJSON:
  "n \<noteq> name \<Longrightarrow> map_of (files (writeJSON E P dir name obj w) d) n = map_of (files w d) n"
  by (simp add: writeJSON_def say_def update_conv')

lemma frame_syncCommonFile:
  assumes "n \<noteq> file"
  shows "map_of (files (endOf id (syncCommonFile E P file w)) d) n = map_of (files w d) n"
proof -
  let ?b = "readJSONSync (files w) (base P) file"
  let ?l = "readJSONSync (files w) (lang P) file"
  let ?d = "diffKeys ?b ?l"
  let ?st0 = "(?b, ?l, say Info [Str ([CHR 0x0A] @ ''File: '' @ file)] w)"
  show ?thesis
  proof (cases "length (missingInTarget ?d) = 0 \<and> length (extraInTarget ?d) = 0
                \<and> length (typeMismatches ?d) = 0")
    case True
    then show ?thesis by (simp add: syncCommonFile_def Let_def)
  next
    case False
    have f0: "files (treesWorld ?st0) = files w" by (simp add: treesWorld_def)
    show ?thesis
    proof (cases "forEach (resolveMissing E P) (missingInTarget ?d) ?st0")
      case (Inl f)
      with files_keyLoops(1)[of E P "missingInTarget ?d" ?st0] f0 False
      show ?thesis by (simp add: syncCommonFile_def Let_def)
    next
      case (Inr st1)
      with files_keyLoops(1)[of E P "missingInTarget ?d" ?st0] f0
      have f1: "files (treesWorld st1) = files w" by simp
      show ?thesis
      proof (cases "forEach (resolveExtra E P) (extraInTarget ?d) st1")
        case (Inl f)
        with files_keyLoops(2)[of E P "extraInTarget ?d" st1] f1 False Inr
        show ?thesis by (simp add: syncCommonFile_def Let_def)
      next
        case st2: (Inr st2)
        with files_keyLoops(2)[of E P "extraInTarget ?d" st1] f1
        have f2: "files (treesWorld st2) = files w" by simp
        show ?thesis
        proof (cases "forEach (resolveMismatch E P) (typeMismatches ?d) st2")
          case (Inl f)
          with files_keyLoops(3)[of E P "typeMismatches ?d" st2] f2 False Inr st2
          show ?thesis by (simp add: syncCommonFile_def Let_def)
        next
          case st3: (Inr st3)
          with files_keyLoops(3)[of E P "typeMismatches ?d" st2] f2
          have "files (treesWorld st3) = files w" by simp
          with False Inr st2 st3 assms show ?thesis
            by (simp add: syncCommonFile_def Let_def treesWorld_def frame_writeJSON)
        qed
      qed
    qed
  qed
qed

lemma frame_syncMissingFile:
  assumes "n \<noteq> file"
  shows "map_of (files (endOf id (syncMissingFile E P file w)) d) n = map_of (files w d) n"
proof -
  let ?d = "decide E P (\<not> preferRemove P)
              (lang P @ ''/'' @ file @ '' missing. Create by translating from '' @ base P @ ''?'')
              True w"
  have "files (endOf snd (translateWholeFile E (readJSONSync (files w) (base P) file)
           (base P) (lang P) (verbose P) (snd ?d))) = files w"
    by (simp add: files_translateWholeFile)
  with assms show ?thesis
    by (auto simp: syncMissingFile_def Let_def frame_writeJSON rm_def delete_conv'
        split: sum.splits if_splits)
qed

lemma frame_syncExtraFile:
  assumes "n \<noteq> file"
  shows "map_of (files (endOf id (syncExtraFile E P file w)) d) n = map_of (files w d) n"
proof -
  let ?d = "decide E P (\<not> preferRemove P)
              (lang P @ ''/'' @ file @ '' exists but '' @ base P @ ''/'' @ file
                @ '' does not. Add to base by translating?'') True w"
  have "files (endOf snd (translateWholeFile E (readJSONSync (files w) (lang P) file)
           (lang P) (base P) (verbose P) (snd ?d))) = files w"
    by (simp add: files_translateWholeFile)
  with assms show ?thesis
    by (auto simp: syncExtraFile_def Let_def frame_writeJSON rm_def delete_conv'
        split: sum.splits if_splits)
qed

lemma forEach_rel:
  assumes rel: "\<And>f wd ww. f \<in> set fs \<Longrightarrow> core wd = core ww \<Longrightarrow> files wd = F0 \<Longrightarrow>
                  \<forall>d. map_of (files ww d) f = map_of (F0 d) f \<Longrightarrow>
                  overEnd core (Sd f wd) = overEnd core (Sw f ww)"
    and keep: "\<And>f wd. files (endOf id (Sd f wd)) = files wd"
    and frame: "\<And>f ww n d. n \<noteq> f \<Longrightarrow> map_of (files (endOf id (Sw f ww)) d) n = map_of (files ww d) n"
    and "distinct fs" and "core wd = core ww" and "files wd = F0"
    and "\<forall>f \<in> set fs. \<forall>d. map_of (files ww d) f = map_of (F0 d) f"
  shows "overEnd core (forEach Sd fs wd) = overEnd core (forEach Sw fs ww)
       \<and> files (endOf id (forEach Sd fs wd)) = F0
       \<and> (\<forall>n. n \<notin> set fs \<longrightarrow>
             (\<forall>d. map_of (files (endOf id (forEach Sw fs ww)) d) n = map_of (files ww d) n))"
  using assms(4-)  rel
proof (induction fs arbitrary: wd ww)
  case Nil
  then show ?case by (simp add: overEnd_def)
next
  case (Cons f fs)
  from Cons.prems(1-4) have c: "core wd = core ww" and fd: "files wd = F0"
    and agf: "\<forall>d. map_of (files ww d) f = map_of (F0 d) f"
    and d: "f \<notin> set fs" "distinct fs"
    and agr: "\<forall>g \<in> set fs. \<forall>d. map_of (files ww d) g = map_of (F0 d) g"
    by simp_all
  have step: "overEnd core (Sd f wd) = overEnd core (Sw f ww)"
    using Cons.prems(5)[of f wd ww] c fd agf by simp
  show ?case
  proof (cases "Sd f wd")
    case (Inl x)
    with step obtain y where y: "Sw f ww = Inl y" "fst y = fst x" "core (snd y) = core (snd x)"
      by (cases "Sw f ww") (auto simp: overEnd_def)
    from keep[of f wd] Inl fd have "files (snd x) = F0" by simp
    moreover from frame[of _ f ww] y
    have "\<forall>n. n \<noteq> f \<longrightarrow> (\<forall>d. map_of (files (snd y) d) n = map_of (files ww d) n)" by simp
    ultimately show ?thesis using Inl y by (simp add: overEnd_def)
  next
    case (Inr wd1)
    with step obtain ww1 where ww1: "Sw f ww = Inr ww1" "core wd1 = core ww1"
      by (cases "Sw f ww") (auto simp: overEnd_def)
    from keep[of f wd] Inr fd have fd1: "files wd1 = F0" by simp
    from frame[of _ f ww] ww1
    have fr: "\<forall>n. n \<noteq> f \<longrightarrow> (\<forall>d. map_of (files ww1 d) n = map_of (files ww d) n)" by simp
    have agr1: "\<forall>g \<in> set fs. \<forall>d. map_of (files ww1 d) g = map_of (F0 d) g"
    proof (intro ballI allI)
      fix g d assume g: "g \<in> set fs"
      with d have "g \<noteq> f" by auto
      with fr have "map_of (files ww1 d) g = map_of (files ww d) g" by simp
      with agr g show "map_of (files ww1 d) g = map_of (F0 d) g" by simp
    qed
    have rel': "\<And>g wd ww. g \<in> set fs \<Longrightarrow> core wd = core ww \<Longrightarrow> files wd = F0 \<Longrightarrow>
                  \<forall>d. map_of (files ww d) g = map_of (F0 d) g \<Longrightarrow>
                  overEnd core (Sd g wd) = overEnd core (Sw g ww)"
      using Cons.prems(5) by simp
    note all = Cons.IH[OF d(2) ww1(2) fd1 agr1 rel']
    have ih: "overEnd core (forEach Sd fs wd1) = overEnd core (forEach Sw fs ww1)"
      "files (endOf id (forEach Sd fs wd1)) = F0"
      "\<forall>n. n \<notin> set fs \<longrightarrow>
             (\<forall>d. map_of (files (endOf id (forEach Sw fs ww1)) d) n = map_of (files ww1 d) n)"
      using all by blast+
    from ih(3) fr have "\<forall>n. n \<notin> set (f # fs) \<longrightarrow>
             (\<forall>d. map_of (files (endOf id (forEach Sw fs ww1)) d) n = map_of (files ww d) n)"
      by simp
    with ih(1,2) Inr ww1 show ?thesis by (simp add: id_def)
  qed
qed

lemma set_fold_uniq:
  "set (fold (\<lambda>x acc. if x \<in> set acc then acc else acc @ [x]) xs acc) = set xs \<union> set acc"
  by (induction xs arbitrary: acc) auto

lemma distinct_fold_uniq:
  "distinct acc \<Longrightarrow> distinct (fold (\<lambda>x acc. if x \<in> set acc then acc else acc @ [x]) xs acc)"
  by (induction xs arbitrary: acc) auto

lemma set_uniq: "set (uniq xs) = set xs"
  by (simp add: uniq_def set_fold_uniq)

lemma distinct_uniq: "distinct (uniq xs)"
  by (simp add: uniq_def distinct_fold_uniq)

lemma set_insertBy [simp]: "set (insertBy le f x ys) = insert x (set ys)"
  by (induction ys) auto

lemma set_sortBy [simp]: "set (sortBy le f xs) = set xs"
  by (induction xs) (simp_all add: sortBy_def)

lemma listJsonFiles_present: "f \<in> set (listJsonFiles E dir) \<Longrightarrow> f \<in> fst ` set dir"
  by (auto simp: listJsonFiles_def)

lemma overEnd_cases:
  assumes "overEnd core r = overEnd core r'"
  shows "(\<exists>x y. r = Inl x \<and> r' = Inl y \<and> fst x = fst y \<and> core (snd x) = core (snd y))
       \<or> (\<exists>v v'. r = Inr v \<and> r' = Inr v' \<and> core v = core v')"
  using assms by (cases r; cases r') (auto simp: overEnd_def)

lemma syncLanguage_shape:
  assumes "base Q = base P" and "lang Q = lang P"
  shows "\<exists>w3. files w3 = files w \<and> core w3 = core w \<and> syncLanguage E Q w =
       (case forEach (syncMissingFile E Q)
               (filter (\<lambda>f. f \<notin> set (uniq (listJsonFiles E (files w (lang P)))))
                  (uniq (listJsonFiles E (files w (base P))))) w3 of
          Inl f \<Rightarrow> Inl f
        | Inr w4 \<Rightarrow>
            (case forEach (syncExtraFile E Q)
                    (filter (\<lambda>f. f \<notin> set (uniq (listJsonFiles E (files w (base P)))))
                       (uniq (listJsonFiles E (files w (lang P))))) w4 of
               Inl f \<Rightarrow> Inl f
             | Inr w5 \<Rightarrow> forEach (syncCommonFile E Q)
                    (filter (\<lambda>f. f \<in> set (uniq (listJsonFiles E (files w (lang P)))))
                       (uniq (listJsonFiles E (files w (base P))))) w5))"
  unfolding syncLanguage_def Let_def assms
  apply (rule exI)
  apply (rule conjI)
   prefer 2
   apply (rule conjI)
    prefer 2
    apply (rule refl)
   apply simp
  apply simp
  done

lemma run_syncLanguage:
  assumes dry: "dryRun P"
  shows "overEnd core (syncLanguage E P w)
       = overEnd core (syncLanguage E (P\<lparr>dryRun := False\<rparr>) w)"
proof -
  let ?Q = "P\<lparr>dryRun := False\<rparr>"
  let ?baseFiles = "uniq (listJsonFiles E (files w (base P)))"
  let ?langFiles = "uniq (listJsonFiles E (files w (lang P)))"
  let ?missing = "filter (\<lambda>f. f \<notin> set ?langFiles) ?baseFiles"
  let ?extra = "filter (\<lambda>f. f \<notin> set ?baseFiles) ?langFiles"
  let ?common = "filter (\<lambda>f. f \<in> set ?langFiles) ?baseFiles"
  let ?F = "files w"
  from syncLanguage_shape[of P P w E] obtain wd where wd: "files wd = ?F" "core wd = core w"
    and rund: "syncLanguage E P w =
       (case forEach (syncMissingFile E P) ?missing wd of
          Inl f \<Rightarrow> Inl f
        | Inr w4 \<Rightarrow>
            (case forEach (syncExtraFile E P) ?extra w4 of
               Inl f \<Rightarrow> Inl f
             | Inr w5 \<Rightarrow> forEach (syncCommonFile E P) ?common w5))"
    by blast
  have "base ?Q = base P" "lang ?Q = lang P" by simp_all
  from syncLanguage_shape[OF this, of w E] obtain ww where ww: "files ww = ?F" "core ww = core w"
    and runw: "syncLanguage E ?Q w =
       (case forEach (syncMissingFile E ?Q) ?missing ww of
          Inl f \<Rightarrow> Inl f
        | Inr w4 \<Rightarrow>
            (case forEach (syncExtraFile E ?Q) ?extra w4 of
               Inl f \<Rightarrow> Inl f
             | Inr w5 \<Rightarrow> forEach (syncCommonFile E ?Q) ?common w5))"
    by blast
  have relM: "\<And>f wd ww. f \<in> set ?missing \<Longrightarrow> core wd = core ww \<Longrightarrow> files wd = ?F \<Longrightarrow>
                  \<forall>d. map_of (files ww d) f = map_of (?F d) f \<Longrightarrow>
                  overEnd core (syncMissingFile E P f wd) = overEnd core (syncMissingFile E ?Q f ww)"
  proof -
    fix f wd ww
    assume f: "f \<in> set ?missing" and c: "core wd = core ww" and F: "files wd = ?F"
      and ag: "\<forall>d. map_of (files ww d) f = map_of (?F d) f"
    from f have "f \<in> set (listJsonFiles E (?F (base P)))" by (simp add: set_uniq)
    then have h: "f \<in> fst ` set (files wd (base P))" using F by (simp add: listJsonFiles_present)
    from ag F have a: "\<forall>d. map_of (files wd d) f = map_of (files ww d) f" by simp
    show "overEnd core (syncMissingFile E P f wd) = overEnd core (syncMissingFile E ?Q f ww)"
      by (rule rel_syncMissingFile[OF c a h])
  qed
  have relE: "\<And>f wd ww. f \<in> set ?extra \<Longrightarrow> core wd = core ww \<Longrightarrow> files wd = ?F \<Longrightarrow>
                  \<forall>d. map_of (files ww d) f = map_of (?F d) f \<Longrightarrow>
                  overEnd core (syncExtraFile E P f wd) = overEnd core (syncExtraFile E ?Q f ww)"
  proof -
    fix f wd ww
    assume f: "f \<in> set ?extra" and c: "core wd = core ww" and F: "files wd = ?F"
      and ag: "\<forall>d. map_of (files ww d) f = map_of (?F d) f"
    from f have "f \<in> set (listJsonFiles E (?F (lang P)))" by (simp add: set_uniq)
    then have h: "f \<in> fst ` set (files wd (lang P))" using F by (simp add: listJsonFiles_present)
    from ag F have a: "\<forall>d. map_of (files wd d) f = map_of (files ww d) f" by simp
    show "overEnd core (syncExtraFile E P f wd) = overEnd core (syncExtraFile E ?Q f ww)"
      by (rule rel_syncExtraFile[OF c a h])
  qed
  have relC: "\<And>f wd ww. f \<in> set ?common \<Longrightarrow> core wd = core ww \<Longrightarrow> files wd = ?F \<Longrightarrow>
                  \<forall>d. map_of (files ww d) f = map_of (?F d) f \<Longrightarrow>
                  overEnd core (syncCommonFile E P f wd) = overEnd core (syncCommonFile E ?Q f ww)"
  proof -
    fix f wd ww
    assume c: "core wd = core ww" and F: "files wd = ?F"
      and ag: "\<forall>d. map_of (files ww d) f = map_of (?F d) f"
    from ag F have a: "\<forall>d. map_of (files wd d) f = map_of (files ww d) f" by simp
    show "overEnd core (syncCommonFile E P f wd) = overEnd core (syncCommonFile E ?Q f ww)"
      by (rule rel_syncCommonFile[OF c a])
  qed
  have c0: "core wd = core ww" using wd ww by simp
  have a0: "\<forall>f \<in> set ?missing. \<forall>d. map_of (files ww d) f = map_of (?F d) f"
    using ww by simp
  have dM: "distinct ?missing" and dE: "distinct ?extra" and dC: "distinct ?common"
    by (simp_all add: distinct_uniq)
  note M = forEach_rel[of ?missing ?F "syncMissingFile E P" "syncMissingFile E ?Q" wd ww,
      OF relM files_syncMissingFile[OF dry] frame_syncMissingFile dM c0 wd(1) a0]
  from M have M1: "overEnd core (forEach (syncMissingFile E P) ?missing wd)
                 = overEnd core (forEach (syncMissingFile E ?Q) ?missing ww)"
    by blast
  from overEnd_cases[OF M1] show ?thesis
  proof (elim disjE exE conjE)
    fix x y
    assume "forEach (syncMissingFile E P) ?missing wd = Inl x"
      "forEach (syncMissingFile E ?Q) ?missing ww = Inl y"
      "fst x = fst y" "core (snd x) = core (snd y)"
    with rund runw show ?thesis by (simp add: overEnd_def)
  next
    fix wd4 ww4
    assume r4: "forEach (syncMissingFile E P) ?missing wd = Inr wd4"
      "forEach (syncMissingFile E ?Q) ?missing ww = Inr ww4" and c4: "core wd4 = core ww4"
    from M have "files (endOf id (forEach (syncMissingFile E P) ?missing wd)) = ?F" by blast
    with r4 have F4: "files wd4 = ?F" by simp
    from M have "\<forall>n. n \<notin> set ?missing \<longrightarrow>
        (\<forall>d. map_of (files (endOf id (forEach (syncMissingFile E ?Q) ?missing ww)) d) n
           = map_of (files ww d) n)" by blast
    with r4
    have fr4: "\<forall>n. n \<notin> set ?missing \<longrightarrow> (\<forall>d. map_of (files ww4 d) n = map_of (files ww d) n)"
      by simp
    have a4: "\<forall>f \<in> set ?extra. \<forall>d. map_of (files ww4 d) f = map_of (?F d) f"
    proof (intro ballI allI)
      fix f d assume "f \<in> set ?extra"
      then have "f \<notin> set ?missing" by simp
      with fr4 have "map_of (files ww4 d) f = map_of (files ww d) f" by blast
      with ww show "map_of (files ww4 d) f = map_of (?F d) f" by simp
    qed
    note X = forEach_rel[of ?extra ?F "syncExtraFile E P" "syncExtraFile E ?Q" wd4 ww4,
        OF relE files_syncExtraFile[OF dry] frame_syncExtraFile dE c4 F4 a4]
    from X have X1: "overEnd core (forEach (syncExtraFile E P) ?extra wd4)
                   = overEnd core (forEach (syncExtraFile E ?Q) ?extra ww4)"
      by blast
    from overEnd_cases[OF X1] show ?thesis
    proof (elim disjE exE conjE)
      fix x y
      assume "forEach (syncExtraFile E P) ?extra wd4 = Inl x"
        "forEach (syncExtraFile E ?Q) ?extra ww4 = Inl y"
        "fst x = fst y" "core (snd x) = core (snd y)"
      with rund runw r4 show ?thesis by (simp add: overEnd_def)
    next
      fix wd5 ww5
      assume r5: "forEach (syncExtraFile E P) ?extra wd4 = Inr wd5"
        "forEach (syncExtraFile E ?Q) ?extra ww4 = Inr ww5" and c5: "core wd5 = core ww5"
      from X have "files (endOf id (forEach (syncExtraFile E P) ?extra wd4)) = ?F" by blast
      with r5 have F5: "files wd5 = ?F" by simp
      from X have "\<forall>n. n \<notin> set ?extra \<longrightarrow>
          (\<forall>d. map_of (files (endOf id (forEach (syncExtraFile E ?Q) ?extra ww4)) d) n
             = map_of (files ww4 d) n)" by blast
      with r5
      have fr5: "\<forall>n. n \<notin> set ?extra \<longrightarrow> (\<forall>d. map_of (files ww5 d) n = map_of (files ww4 d) n)"
        by simp
      have a5: "\<forall>f \<in> set ?common. \<forall>d. map_of (files ww5 d) f = map_of (?F d) f"
      proof (intro ballI allI)
        fix f d assume "f \<in> set ?common"
        then have "f \<notin> set ?missing" "f \<notin> set ?extra" by simp_all
        with fr4 fr5 have "map_of (files ww5 d) f = map_of (files ww d) f" by metis
        with ww show "map_of (files ww5 d) f = map_of (?F d) f" by simp
      qed
      note C = forEach_rel[of ?common ?F "syncCommonFile E P" "syncCommonFile E ?Q" wd5 ww5,
          OF relC files_syncCommonFile[OF dry] frame_syncCommonFile dC c5 F5 a5]
      from C have "overEnd core (forEach (syncCommonFile E P) ?common wd5)
                 = overEnd core (forEach (syncCommonFile E ?Q) ?common ww5)"
        by blast
      with rund runw r4 r5 show ?thesis by simp
    qed
  qed
qed

lemma adapter_syncLanguage:
  assumes "dryRun P"
  shows "adapterState (finalWorld (syncLanguage E P w))
       = adapterState (finalWorld (syncLanguage E (P\<lparr>dryRun := False\<rparr>) w))"
    and "asked (finalWorld (syncLanguage E P w))
       = asked (finalWorld (syncLanguage E (P\<lparr>dryRun := False\<rparr>) w))"
  using overEnd_cases[OF run_syncLanguage[OF assms, of E w]]
  by (auto simp: finalWorld_def dest: core_adapter core_asked)


text \<open>
  C10. When \<^verbatim>\<open>diffKeys\<close> of the two trees of a common file finds nothing missing, nothing
  extra and no mismatch, the iteration for that file ends at once: no file is written,
  with or without \<^verbatim>\<open>dryRun\<close>, no translation is made and no question is put.
\<close>

theorem in_sync_not_written:
  assumes "diffKeys (readJSONSync (files w) (base P) file) (readJSONSync (files w) (lang P) file)
            = \<lparr>missingInTarget = [], extraInTarget = [], typeMismatches = []\<rparr>"
  shows "syncCommonFile E P file w
           = Inr (if verbose P then say Okay [Str (lang P @ ''/'' @ file @ '' is in sync.'')] w else w)
     \<and> files (finalWorld (syncCommonFile E P file w)) = files w
     \<and> adapterState (finalWorld (syncCommonFile E P file w)) = adapterState w
     \<and> asked (finalWorld (syncCommonFile E P file w)) = asked w"
  using assms by (simp add: syncCommonFile_def Let_def finalWorld_def say_def)

lemma translateIn_answers [simp]: "translateIn (E\<lparr>answers := f\<rparr>) = translateIn E"
  by (intro ext) (simp add: translateIn_def)

lemma translateIn_asked:
  "translateIn E s src dst (w\<lparr>asked := x\<rparr>) = withAsked x (translateIn E s src dst w)"
  by (simp add: translateIn_def Let_def withAsked_def split: sum.splits)

lemma asked_say [simp]: "asked (say lv line w) = asked w"
  by (simp add: say_def)

lemma say_asked: "say lv line (w\<lparr>asked := x\<rparr>) = (say lv line w)\<lparr>asked := x\<rparr>"
  by (simp add: say_def)

lemma translateLeaves_answers [simp]:
  "translateLeaves (E\<lparr>answers := f\<rparr>) flat src dst vb ks out w
     = translateLeaves E flat src dst vb ks out w"
  by (induction ks arbitrary: out w) (simp_all cong: json.case_cong sum.case_cong)

lemma translateLeaves_asked:
  "translateLeaves E flat src dst vb ks out (w\<lparr>asked := x\<rparr>)
     = withAsked x (translateLeaves E flat src dst vb ks out w)"
proof (induction ks arbitrary: out w)
  case Nil
  show ?case by (simp add: withAsked_def)
next
  case (Cons k ks)
  show ?case
  proof (cases "get flat k")
    case (JStr s)
    show ?thesis
    proof (cases "translateIn E s src dst w")
      case (Inl f)
      with JStr show ?thesis by (simp add: translateIn_asked withAsked_def)
    next
      case (Inr r)
      show ?thesis
      proof (cases "setAtPath out k (JStr (fst r))")
        case (Inl e)
        with JStr Inr show ?thesis by (simp add: translateIn_asked withAsked_def)
      next
        case out1: (Inr out1)
        show ?thesis
        proof (cases vb)
          case True
          with JStr Inr out1 Cons.IH[of out1 "say Info [Str (''Translated '' @ k)] (snd r)"]
          show ?thesis by (simp add: translateIn_asked withAsked_def say_asked)
        next
          case False
          with JStr Inr out1 Cons.IH[of out1 "snd r"]
          show ?thesis by (simp add: translateIn_asked withAsked_def)
        qed
      qed
    qed
  qed (use Cons.IH in \<open>simp_all add: withAsked_def split: sum.splits\<close>)
qed

lemma translateWholeFile_asked:
  "translateWholeFile (E\<lparr>answers := f\<rparr>) obj src dst vb (w\<lparr>asked := x\<rparr>)
     = withAsked x (translateWholeFile E obj src dst vb w)"
  by (simp add: translateWholeFile_def translateLeaves_asked)

lemma forgetAsked_simps [simp]:
  "forgetAsked (w\<lparr>asked := x\<rparr>) = forgetAsked w"
  "forgetAsked (say lv line w) = say lv line (forgetAsked w)"
  "forgetAsked ((say lv line w)\<lparr>asked := x\<rparr>) = say lv line (forgetAsked w)"
  by (simp_all add: forgetAsked_def say_def)

lemma automatic_resolveExtra:
  assumes "auto P"
  shows "unaskedTrees (resolveExtra E P k st)
       = unaskedTrees (resolveExtra (answering E P (snd (snd st))) (P\<lparr>auto := False\<rparr>) k st)"
proof (cases "getAtPath (fst (snd st)) k")
  case (Inl e)
  then show ?thesis by (simp add: resolveExtra_def Let_def)
next
  case (Inr tgtVal)
  show ?thesis
  proof (cases "preferRemove P")
    case True
    with assms Inr show ?thesis
      by (simp add: resolveExtra_def Let_def decide_def promptYesNo_def answering_def
          unaskedTrees_def say_asked split: sum.splits)
  next
    case False
    with assms Inr show ?thesis
      by (simp add: resolveExtra_def Let_def decide_def promptYesNo_def answering_def
          unaskedTrees_def say_asked translateIn_asked withAsked_def split: sum.splits)
  qed
qed

lemma automatic_resolveMissing:
  assumes "auto P"
  shows "unaskedTrees (resolveMissing E P k st)
       = unaskedTrees (resolveMissing (answering E P (snd (snd st))) (P\<lparr>auto := False\<rparr>) k st)"
proof (cases "getAtPath (fst st) k")
  case (Inl e)
  then show ?thesis by (simp add: resolveMissing_def Let_def)
next
  case (Inr srcVal)
  show ?thesis
  proof (cases "preferRemove P")
    case True
    with assms Inr show ?thesis
      by (simp add: resolveMissing_def Let_def decide_def promptYesNo_def answering_def
          unaskedTrees_def say_asked split: sum.splits)
  next
    case False
    with assms Inr show ?thesis
      by (simp add: resolveMissing_def Let_def decide_def promptYesNo_def answering_def
          unaskedTrees_def say_asked translateIn_asked withAsked_def split: sum.splits)
  qed
qed

lemma writeJSON_asked:
  "writeJSON (E\<lparr>answers := f\<rparr>) (P\<lparr>auto := b\<rparr>) dir name obj (w\<lparr>asked := x\<rparr>)
     = (writeJSON E P dir name obj w)\<lparr>asked := x\<rparr>"
  by (simp add: writeJSON_def say_def formatted_def filePath_def)

lemma rm_asked:
  "rm dir name (w\<lparr>asked := x\<rparr>)
     = (case rm dir name w of
          Inl f \<Rightarrow> Inl (fst f, (snd f)\<lparr>asked := x\<rparr>)
        | Inr w' \<Rightarrow> Inr (w'\<lparr>asked := x\<rparr>))"
  by (simp add: rm_def)

lemma automatic_syncMissingFile:
  assumes "auto P"
  shows "unasked (syncMissingFile E P file w)
       = unasked (syncMissingFile (answering E P w) (P\<lparr>auto := False\<rparr>) file w)"
proof (cases "preferRemove P")
  case True
  with assms show ?thesis
    by (simp add: syncMissingFile_def Let_def decide_def promptYesNo_def answering_def
        unasked_def say_asked rm_asked split: sum.splits)
next
  case False
  with assms show ?thesis
    by (simp add: syncMissingFile_def Let_def decide_def promptYesNo_def answering_def
        unasked_def say_asked translateWholeFile_asked writeJSON_asked withAsked_def
        split: sum.splits)
qed

lemma automatic_syncExtraFile:
  assumes "auto P"
  shows "unasked (syncExtraFile E P file w)
       = unasked (syncExtraFile (answering E P w) (P\<lparr>auto := False\<rparr>) file w)"
proof (cases "preferRemove P")
  case True
  with assms show ?thesis
    by (simp add: syncExtraFile_def Let_def decide_def promptYesNo_def answering_def
        unasked_def say_asked rm_asked split: sum.splits)
next
  case False
  with assms show ?thesis
    by (simp add: syncExtraFile_def Let_def decide_def promptYesNo_def answering_def
        unasked_def say_asked translateWholeFile_asked writeJSON_asked withAsked_def
        split: sum.splits)
qed

lemma extra_removed:
  assumes "auto P" and "preferRemove P"
  shows "\<exists>w1. files w1 = files w \<and> adapterState w1 = adapterState w \<and> asked w1 = asked w
          \<and> resolveExtra E P k (b, l, w)
              = (case deleteAtPath l k of
                   Inl e \<Rightarrow> Inl (PathError e, w1)
                 | Inr l' \<Rightarrow>
                     Inr (b, l', say Okay [Str (''Removed '' @ lang P @ '':'' @ k)] w1))"
proof -
  obtain tgtVal where g: "getAtPath l k = Inr tgtVal"
    using getAtPath_loop_total[of l "split_dot k"] by (auto simp: getAtPath_def)
  let ?w1 = "say Log
                 ([Str ([CHR 0xE2, CHR 0x80, CHR 0xA2] @ '' Extra in '' @ lang P @ '': '' @ k)]
                  @ (if isString tgtVal then [Str '' = '', Encoded tgtVal] else [])) w"
  have "files ?w1 = files w \<and> adapterState ?w1 = adapterState w \<and> asked ?w1 = asked w"
    by (simp add: say_def)
  moreover from assms g have "resolveExtra E P k (b, l, w)
              = (case deleteAtPath l k of
                   Inl e \<Rightarrow> Inl (PathError e, ?w1)
                 | Inr l' \<Rightarrow>
                     Inr (b, l', say Okay [Str (''Removed '' @ lang P @ '':'' @ k)] ?w1))"
    by (simp add: resolveExtra_def Let_def decide_def split: sum.splits)
  ultimately show ?thesis by blast
qed


lemmas tree_eval =
  flatten_def flatten_from_def push_entries_def nextPath_def diffKeys_def diffBase_def
  diffTarget_def has_def get_def shape_def getAtPath_def setAtPath_def deleteAtPath_def
  ordered_def arrayIndex_def isDigit_def digitsValue_def inherited_def ownOf_def setProto_def
  unwritten_def

lemmas sync_eval =
  syncLanguage_def syncCommonFile_def syncMissingFile_def syncExtraFile_def resolveExtra_def
  resolveMissing_def resolveMismatch_def decide_def translateWholeFile_def translateIn_def
  writeJSON_def rm_def say_def listJsonFiles_def sortBy_def endsWith_def readJSONSync_def
  formatted_def filePath_def finalWorld_def isString_def stringOf_def uniq_def Let_def

lemma extraKey_run:
  "files (finalWorld (syncLanguage sampleEnv autoRemove (worldWith extraKeyFiles))) ''fr''
     = [(''x.json'', Document (JObj [(''x'', JStr ''1'')]))]"
  "files (finalWorld (syncLanguage sampleEnv autoRemove (worldWith extraKeyFiles))) ''en''
     = [(''x.json'', Document (JObj [(''x'', JStr ''1'')]))]"
  by (simp_all add: sampleEnv_def autoRemove_def worldWith_def extraKeyFiles_def sync_eval tree_eval
      startsWith_def)

lemma missingFile_run:
  "map snd (requests (adapterState (finalWorld (syncLanguage sampleEnv dryCreate (worldWith missingFileFiles)))))
     = [''Hi {n}'']"
  "console (finalWorld (syncLanguage sampleEnv dryCreate (worldWith missingFileFiles))) ! 2
     = (Info, [Str ''[dry-run] Would write i18n/fr/x.json''])"
  by (simp_all add: sampleEnv_def dryCreate_def worldWith_def missingFileFiles_def sync_eval tree_eval
      adapter_eval nth_append)

lemma inSync_diff:
  "diffKeys (readJSONSync (files (worldWith inSyncFiles)) (base autoRemove) ''x.json'')
            (readJSONSync (files (worldWith inSyncFiles)) (lang autoRemove) ''x.json'')
     = \<lparr>missingInTarget = [], extraInTarget = [], typeMismatches = []\<rparr>"
  by (simp add: autoRemove_def worldWith_def inSyncFiles_def readJSONSync_def tree_eval)


theorem in_sync_not_written_witness:
  "diffKeys (readJSONSync (files (worldWith inSyncFiles)) (base autoRemove) ''x.json'')
            (readJSONSync (files (worldWith inSyncFiles)) (lang autoRemove) ''x.json'')
     = \<lparr>missingInTarget = [], extraInTarget = [], typeMismatches = []\<rparr>
   \<and> \<not> dryRun autoRemove
   \<and> syncCommonFile sampleEnv autoRemove ''x.json'' (worldWith inSyncFiles)
       = Inr (worldWith inSyncFiles)
   \<and> files (finalWorld (syncCommonFile sampleEnv autoRemove ''x.json'' (worldWith inSyncFiles)))
       = files (worldWith inSyncFiles)"
proof -
  have v: "\<not> verbose autoRemove" "\<not> dryRun autoRemove" by (simp_all add: autoRemove_def)
  from in_sync_not_written[OF inSync_diff, of sampleEnv] v inSync_diff
  show ?thesis by (simp add: finalWorld_def)
qed


end
